theory Spec2Isabelle
  imports Main "HOL-Library.Word"
begin

unbundle bit_operations_syntax

section \<open>Machine types, errors and control flow\<close>

text \<open>
  The log manager of \<^verbatim>\<open>src/log/log_manager.cc\<close> works on \<^verbatim>\<open>uint64_t\<close> values and on
  single bytes. Both are fixed-width words here, so every addition wraps around as it does
  in the C++ code.
\<close>

type_synonym u8 = "8 word"
type_synonym u64 = "64 word"

text \<open>
  What can go wrong while an operation runs: a read or write outside the log file, a
  \<^verbatim>\<open>memcpy\<close> that leaves the page it was given, and an image pointer that holds fewer
  bytes than the length passed with it.
\<close>

datatype error = IOError | PageOverflow | BadImage

text \<open>The body of a \<^verbatim>\<open>while\<close> loop either leaves the loop or goes round again.\<close>

datatype 'a flow = Break 'a | Continue 'a

definition err_bind :: "error + 'a \<Rightarrow> ('a \<Rightarrow> error + 'b) \<Rightarrow> error + 'b" where
  "err_bind m f = (case m of Inl e \<Rightarrow> Inl e | Inr x \<Rightarrow> f x)"

section \<open>Record kinds\<close>

text \<open>The enumeration \<^verbatim>\<open>LogManager::LogRecordType\<close> of the header, in its order.\<close>

datatype LogRecordType =
    INVALID_RECORD_TYPE
  | ABORT_RECORD
  | COMMIT_RECORD
  | UPDATE_RECORD
  | BEGIN_RECORD
  | CHECKPOINT_RECORD
  | BEGIN_FUZZY_CHECKPOINT_RECORD
  | END_FUZZY_CHECKPOINT_RECORD

text \<open>\<^verbatim>\<open>static_cast<unsigned char>(kind)\<close>: the position of the enumerator.\<close>

fun tag_of :: "LogRecordType \<Rightarrow> u8" where
  "tag_of INVALID_RECORD_TYPE = 0"
| "tag_of ABORT_RECORD = 1"
| "tag_of COMMIT_RECORD = 2"
| "tag_of UPDATE_RECORD = 3"
| "tag_of BEGIN_RECORD = 4"
| "tag_of CHECKPOINT_RECORD = 5"
| "tag_of BEGIN_FUZZY_CHECKPOINT_RECORD = 6"
| "tag_of END_FUZZY_CHECKPOINT_RECORD = 7"

section \<open>Integers in host byte order\<close>

text \<open>
  A \<^verbatim>\<open>uint64_t\<close> is written by handing its address to \<^verbatim>\<open>write_block\<close> and read back the
  same way, so the file holds its eight bytes in host order, least significant first on
  the hosts the repository targets.
\<close>

fun u64_of_bytes :: "u8 list \<Rightarrow> u64" where
  "u64_of_bytes [] = 0"
| "u64_of_bytes (b # bs) = ucast b OR push_bit 8 (u64_of_bytes bs)"

fun bytes_of_word :: "nat \<Rightarrow> u64 \<Rightarrow> u8 list" where
  "bytes_of_word 0 w = []"
| "bytes_of_word (Suc n) w = ucast w # bytes_of_word n (drop_bit 8 w)"

definition bytes_of_u64 :: "u64 \<Rightarrow> u8 list" where
  "bytes_of_u64 w = bytes_of_word 8 w"

section \<open>The file primitive\<close>

text \<open>
  Modelled from the spec: the class \<^verbatim>\<open>File\<close> of \<^verbatim>\<open>storage/test_file.h\<close> is not part of
  the sources at hand. The spec describes it as a growable flat byte array with
  \<^verbatim>\<open>size\<close>, \<^verbatim>\<open>resize\<close> (grows or shrinks, new bytes zero), and random-access
  \<^verbatim>\<open>read_block\<close> and \<^verbatim>\<open>write_block\<close>. A file is the list of its bytes. An access that
  leaves the file is an I/O failure, which the spec propagates to the caller.
\<close>

type_synonym File = "u8 list"

definition file_size :: "File \<Rightarrow> u64" where
  "file_size f = of_nat (length f)"

definition resize :: "File \<Rightarrow> u64 \<Rightarrow> File" where
  "resize f n = take (unat n) f @ replicate (unat n - length f) 0"

definition read_block :: "File \<Rightarrow> u64 \<Rightarrow> u64 \<Rightarrow> error + u8 list" where
  "read_block f off n =
     (if unat off + unat n \<le> length f then Inr (take (unat n) (drop (unat off) f))
      else Inl IOError)"

definition write_block :: "File \<Rightarrow> u8 list \<Rightarrow> u64 \<Rightarrow> error + File" where
  "write_block f block off =
     (if unat off + length block \<le> length f
      then Inr (take (unat off) f @ block @ drop (unat off + length block) f)
      else Inl IOError)"

text \<open>Reading one \<^verbatim>\<open>unsigned char\<close> and one \<^verbatim>\<open>uint64_t\<close> through \<^verbatim>\<open>read_block\<close>.\<close>

definition read_u8 :: "File \<Rightarrow> u64 \<Rightarrow> error + u8" where
  "read_u8 f off = err_bind (read_block f off 1) (\<lambda>bs. Inr (hd bs))"

definition read_u64 :: "File \<Rightarrow> u64 \<Rightarrow> error + u64" where
  "read_u64 f off = err_bind (read_block f off 8) (\<lambda>bs. Inr (u64_of_bytes bs))"

section \<open>The buffer manager\<close>

text \<open>
  Modelled from the spec: the class \<^verbatim>\<open>BufferManager\<close> of \<^verbatim>\<open>buffer/buffer_manager.h\<close>
  is not part of the sources at hand. The spec gives its contract: \<^verbatim>\<open>fix_page\<close> returns
  a handle with byte-level access to the page contents, \<^verbatim>\<open>unfix_page\<close> with
  \<^verbatim>\<open>dirty = true\<close> marks the page for write-back, \<^verbatim>\<open>flush_page\<close> writes the page if it
  is dirty, \<^verbatim>\<open>flush_all_pages\<close> writes all dirty pages, and \<^verbatim>\<open>get_dirty_page_ids\<close>
  is the ordered sequence of dirty page ids. The state is the contents of every page as
  \<^verbatim>\<open>fix_page\<close> shows them, the contents at the pages' home locations, and the dirty ids.
  Pin counts and the number of frames are left out.
\<close>

record BufferManager =
  bm_pages :: "u64 \<Rightarrow> u8 list"
  bm_disk :: "u64 \<Rightarrow> u8 list"
  bm_dirty :: "u64 list"

definition mark_dirty :: "u64 \<Rightarrow> u64 list \<Rightarrow> u64 list" where
  "mark_dirty pid ds = (if pid \<in> set ds then ds else ds @ [pid])"

definition flush_page :: "u64 \<Rightarrow> BufferManager \<Rightarrow> BufferManager" where
  "flush_page pid bm =
     (if pid \<in> set (bm_dirty bm)
      then bm\<lparr>bm_disk := (bm_disk bm)(pid := bm_pages bm pid),
              bm_dirty := removeAll pid (bm_dirty bm)\<rparr>
      else bm)"

definition flush_all_pages :: "BufferManager \<Rightarrow> BufferManager" where
  "flush_all_pages bm = fold flush_page (bm_dirty bm) bm"

definition get_dirty_page_ids :: "BufferManager \<Rightarrow> u64 list" where
  "get_dirty_page_ids bm = bm_dirty bm"

text \<open>
  The three lines that the log manager uses to change a page:
  \<^verbatim>\<open>frame = fix_page(page_id, true); memcpy(&frame.get_data()[offset], data, length);
  unfix_page(frame, true)\<close>. The copy takes the first \<^verbatim>\<open>length\<close> bytes of the image; it
  must stay inside the page.
\<close>

definition write_page :: "u64 \<Rightarrow> u64 \<Rightarrow> u64 \<Rightarrow> u8 list \<Rightarrow> BufferManager \<Rightarrow> error + BufferManager" where
  "write_page pid off len img bm =
     (let page = bm_pages bm pid in
      if unat off + unat len \<le> length page \<and> unat len \<le> length img
      then Inr (bm\<lparr>bm_pages := (bm_pages bm)
                     (pid := take (unat off) page @ take (unat len) img
                             @ drop (unat off + unat len) page),
                   bm_dirty := mark_dirty pid (bm_dirty bm)\<rparr>)
      else Inl PageOverflow)"

section \<open>The state of the log manager\<close>

text \<open>
  \<^verbatim>\<open>std::map<uint64_t, uint64_t>\<close> and \<^verbatim>\<open>std::set<uint64_t>\<close> are iterated in key order
  by recovery, so both are lists kept in ascending key order. \<^verbatim>\<open>insert\<close> leaves the
  container as it is when the key is already there, and otherwise puts the new entry at
  its place in the order.
\<close>

definition map_find :: "u64 \<Rightarrow> (u64 \<times> u64) list \<Rightarrow> u64 option" where
  "map_find k m = map_of m k"

fun map_place :: "u64 \<Rightarrow> u64 \<Rightarrow> (u64 \<times> u64) list \<Rightarrow> (u64 \<times> u64) list" where
  "map_place k v [] = [(k, v)]"
| "map_place k v ((k', v') # m) =
     (if k < k' then (k, v) # (k', v') # m else (k', v') # map_place k v m)"

definition map_insert :: "u64 \<Rightarrow> u64 \<Rightarrow> (u64 \<times> u64) list \<Rightarrow> (u64 \<times> u64) list" where
  "map_insert k v m = (case map_find k m of Some v' \<Rightarrow> m | None \<Rightarrow> map_place k v m)"

definition map_erase :: "u64 \<Rightarrow> (u64 \<times> u64) list \<Rightarrow> (u64 \<times> u64) list" where
  "map_erase k m = filter (\<lambda>kv. fst kv \<noteq> k) m"

fun set_place :: "u64 \<Rightarrow> u64 list \<Rightarrow> u64 list" where
  "set_place k [] = [k]"
| "set_place k (k' # s) = (if k < k' then k # k' # s else k' # set_place k s)"

definition set_insert :: "u64 \<Rightarrow> u64 list \<Rightarrow> u64 list" where
  "set_insert k s = (if k \<in> set s then s else set_place k s)"

text \<open>
  \<^verbatim>\<open>log_record_type_to_count\<close> is only ever read and written through \<^verbatim>\<open>operator[]\<close>,
  which yields 0 for a kind that has no entry yet. It is therefore a total function that
  is 0 wherever nothing was stored; \<^verbatim>\<open>clear()\<close> and the constructor both give the
  function that is 0 everywhere. The members \<^verbatim>\<open>log_file_\<close> and \<^verbatim>\<open>current_offset_\<close> are the
  fields \<open>log_file_m\<close> and \<open>current_offset_m\<close>; the file behind the pointer is held by value.
\<close>

record LogManager =
  fuzzy_checkpoint_page_ids :: "u64 list"
  log_file_m :: File
  current_offset_m :: u64
  txn_id_to_first_log_record :: "(u64 \<times> u64) list"
  log_record_type_to_count :: "LogRecordType \<Rightarrow> u64"

definition LogManager_new :: "File \<Rightarrow> LogManager" where
  "LogManager_new f =
     \<lparr>fuzzy_checkpoint_page_ids = [], log_file_m = f, current_offset_m = 0,
      txn_id_to_first_log_record = [], log_record_type_to_count = (\<lambda>_. 0)\<rparr>"

definition reset :: "File \<Rightarrow> LogManager \<Rightarrow> LogManager" where
  "reset f lm =
     lm\<lparr>log_file_m := f, current_offset_m := 0, txn_id_to_first_log_record := [],
        log_record_type_to_count := (\<lambda>_. 0), fuzzy_checkpoint_page_ids := []\<rparr>"

definition get_total_log_records :: "LogManager \<Rightarrow> u64" where
  "get_total_log_records lm =
     log_record_type_to_count lm ABORT_RECORD
     + log_record_type_to_count lm COMMIT_RECORD
     + log_record_type_to_count lm UPDATE_RECORD
     + log_record_type_to_count lm BEGIN_RECORD
     + log_record_type_to_count lm CHECKPOINT_RECORD
     + log_record_type_to_count lm BEGIN_FUZZY_CHECKPOINT_RECORD
     + log_record_type_to_count lm END_FUZZY_CHECKPOINT_RECORD"

definition get_total_log_records_of_type :: "LogManager \<Rightarrow> LogRecordType \<Rightarrow> u64" where
  "get_total_log_records_of_type lm k = log_record_type_to_count lm k"

text \<open>\<^verbatim>\<open>log_record_type_to_count[kind]++\<close>.\<close>

definition count_incr :: "LogRecordType \<Rightarrow> LogManager \<Rightarrow> LogManager" where
  "count_incr k lm =
     lm\<lparr>log_record_type_to_count :=
          (log_record_type_to_count lm)(k := log_record_type_to_count lm k + 1)\<rparr>"

section \<open>Appending records\<close>

text \<open>
  Every append enlarges the file to the end of the new record, writes the payload, writes
  the tag byte last, advances \<^verbatim>\<open>current_offset_\<close> and counts the record.
  \<^verbatim>\<open>sizeof(unsigned char)\<close> is 1 and \<^verbatim>\<open>sizeof(uint64_t)\<close> is 8.
\<close>

definition log_commit :: "u64 \<Rightarrow> LogManager \<Rightarrow> error + LogManager" where
  "log_commit txn lm =
     (let cur = current_offset_m lm;
          f0 = resize (log_file_m lm) (cur + 1 + 8) in
      err_bind (write_block f0 (bytes_of_u64 txn) (cur + 1)) (\<lambda>f1.
      err_bind (write_block f1 [tag_of COMMIT_RECORD] cur) (\<lambda>f2.
      Inr ((count_incr COMMIT_RECORD (lm\<lparr>log_file_m := f2, current_offset_m := cur + (1 + 8)\<rparr>))
             \<lparr>txn_id_to_first_log_record := map_erase txn (txn_id_to_first_log_record lm)\<rparr>))))"

text \<open>
  The images of \<^verbatim>\<open>log_update\<close> are pointers; \<^verbatim>\<open>write_block\<close> copies \<^verbatim>\<open>length\<close> bytes
  from each. An image is given here as the list of bytes behind the pointer, which must
  hold at least \<^verbatim>\<open>length\<close> bytes.
\<close>

definition image_bytes :: "u64 \<Rightarrow> u8 list \<Rightarrow> error + u8 list" where
  "image_bytes len img = (if unat len \<le> length img then Inr (take (unat len) img) else Inl BadImage)"

definition log_update :: "u64 \<Rightarrow> u64 \<Rightarrow> u64 \<Rightarrow> u64 \<Rightarrow> u8 list \<Rightarrow> u8 list \<Rightarrow> LogManager \<Rightarrow> error + LogManager" where
  "log_update txn pid len off before_img after_img lm =
     (let cur = current_offset_m lm;
          f0 = resize (log_file_m lm) (cur + 1 + 4 * 8 + 2 * len) in
      err_bind (write_block f0 (bytes_of_u64 txn) (cur + 1)) (\<lambda>f1.
      err_bind (write_block f1 (bytes_of_u64 pid) (cur + 1 + 8)) (\<lambda>f2.
      err_bind (write_block f2 (bytes_of_u64 len) (cur + 1 + 2 * 8)) (\<lambda>f3.
      err_bind (write_block f3 (bytes_of_u64 off) (cur + 1 + 3 * 8)) (\<lambda>f4.
      err_bind (image_bytes len before_img) (\<lambda>b.
      err_bind (write_block f4 b (cur + 1 + 4 * 8)) (\<lambda>f5.
      err_bind (image_bytes len after_img) (\<lambda>a.
      err_bind (write_block f5 a (cur + 1 + 4 * 8 + len)) (\<lambda>f6.
      err_bind (write_block f6 [tag_of UPDATE_RECORD] cur) (\<lambda>f7.
      Inr (count_incr UPDATE_RECORD
             (lm\<lparr>log_file_m := f7, current_offset_m := cur + (1 + 4 * 8 + 2 * len)\<rparr>))))))))))))"

definition log_txn_begin :: "u64 \<Rightarrow> LogManager \<Rightarrow> error + LogManager" where
  "log_txn_begin txn lm =
     (let cur = current_offset_m lm;
          f0 = resize (log_file_m lm) (cur + 1 + 8) in
      err_bind (write_block f0 (bytes_of_u64 txn) (cur + 1)) (\<lambda>f1.
      err_bind (write_block f1 [tag_of BEGIN_RECORD] cur) (\<lambda>f2.
      let lm1 = lm\<lparr>log_file_m := f2, current_offset_m := cur + (1 + 8)\<rparr>;
          total_records = get_total_log_records lm1;
          lm2 = count_incr BEGIN_RECORD lm1
      in Inr (lm2\<lparr>txn_id_to_first_log_record :=
                     map_insert txn total_records (txn_id_to_first_log_record lm2)\<rparr>))))"

definition log_checkpoint :: "LogManager \<Rightarrow> BufferManager \<Rightarrow> error + LogManager \<times> BufferManager" where
  "log_checkpoint lm bm =
     (let bm' = flush_all_pages bm;
          cur = current_offset_m lm;
          f0 = resize (log_file_m lm) (cur + 1) in
      err_bind (write_block f0 [tag_of CHECKPOINT_RECORD] cur) (\<lambda>f1.
      Inr (count_incr CHECKPOINT_RECORD (lm\<lparr>log_file_m := f1, current_offset_m := cur + 1\<rparr>), bm')))"

text \<open>The last component of the result is the returned number of dirty pages.\<close>

definition log_fuzzy_checkpoint_begin :: "LogManager \<Rightarrow> BufferManager \<Rightarrow> error + LogManager \<times> BufferManager \<times> nat" where
  "log_fuzzy_checkpoint_begin lm bm =
     (let lm0 = lm\<lparr>fuzzy_checkpoint_page_ids := get_dirty_page_ids bm\<rparr>;
          cur = current_offset_m lm0;
          f0 = resize (log_file_m lm0) (cur + 1) in
      err_bind (write_block f0 [tag_of BEGIN_FUZZY_CHECKPOINT_RECORD] cur) (\<lambda>f1.
      let lm1 = count_incr BEGIN_FUZZY_CHECKPOINT_RECORD
                  (lm0\<lparr>log_file_m := f1, current_offset_m := cur + 1\<rparr>)
      in Inr (lm1, bm, length (fuzzy_checkpoint_page_ids lm1))))"

definition log_fuzzy_checkpoint_do_step :: "LogManager \<Rightarrow> BufferManager \<Rightarrow> nat \<Rightarrow> LogManager \<times> BufferManager" where
  "log_fuzzy_checkpoint_do_step lm bm step =
     (if step \<ge> length (fuzzy_checkpoint_page_ids lm) then (lm, bm)
      else let page_id = fuzzy_checkpoint_page_ids lm ! step in (lm, flush_page page_id bm))"

definition log_fuzzy_checkpoint_end :: "LogManager \<Rightarrow> error + LogManager" where
  "log_fuzzy_checkpoint_end lm =
     (let cur = current_offset_m lm;
          f0 = resize (log_file_m lm) (cur + 1) in
      err_bind (write_block f0 [tag_of END_FUZZY_CHECKPOINT_RECORD] cur) (\<lambda>f1.
      Inr ((count_incr END_FUZZY_CHECKPOINT_RECORD
              (lm\<lparr>log_file_m := f1, current_offset_m := cur + 1\<rparr>))
             \<lparr>fuzzy_checkpoint_page_ids := []\<rparr>)))"

section \<open>Rollback of one transaction\<close>

text \<open>The class \<^verbatim>\<open>UpdateInfo\<close>: one decoded UPDATE record.\<close>

record UpdateInfo =
  ui_txn_id :: u64
  ui_page_id :: u64
  ui_length :: u64
  ui_offset :: u64
  ui_before_img :: "u8 list"
  ui_after_img :: "u8 list"

text \<open>
  The body of the \<^verbatim>\<open>while\<close> loop of \<^verbatim>\<open>rollback_txn\<close>. The loop state is the scan offset
  \<^verbatim>\<open>current_offset\<close> and the vector \<^verbatim>\<open>updates\<close>. Any tag other than 0, 5, 6, 7, 4, 2 and 1
  reaches the final \<^verbatim>\<open>else\<close>, which decodes an UPDATE record.
\<close>

definition rollback_iter :: "u64 \<Rightarrow> LogManager \<Rightarrow> u64 \<times> UpdateInfo list \<Rightarrow> error + (u64 \<times> UpdateInfo list) flow" where
  "rollback_iter txn lm st =
     (let f = log_file_m lm; current_offset = fst st; updates = snd st in
      err_bind (read_u8 f current_offset) (\<lambda>type.
      if type = tag_of INVALID_RECORD_TYPE then Inr (Break st)
      else if type = tag_of CHECKPOINT_RECORD then Inr (Continue (current_offset + 1, updates))
      else if type = tag_of BEGIN_FUZZY_CHECKPOINT_RECORD then Inr (Continue (current_offset + 1, updates))
      else if type = tag_of END_FUZZY_CHECKPOINT_RECORD then Inr (Continue (current_offset + 1, updates))
      else if type = tag_of BEGIN_RECORD \<or> type = tag_of COMMIT_RECORD
        then Inr (Continue (current_offset + (1 + 8), updates))
      else if type = tag_of ABORT_RECORD then
        err_bind (read_u64 f (current_offset + 1)) (\<lambda>current_txn_id.
        if current_txn_id = txn then Inr (Break (current_offset + (1 + 8), updates))
        else Inr (Continue (current_offset + (1 + 8), updates)))
      else
        err_bind (read_u64 f (current_offset + 1)) (\<lambda>current_txn_id.
        if current_txn_id = txn then
          err_bind (read_u64 f (current_offset + 1 + 8)) (\<lambda>page_id.
          err_bind (read_u64 f (current_offset + 1 + 2 * 8)) (\<lambda>len.
          err_bind (read_u64 f (current_offset + 1 + 3 * 8)) (\<lambda>off.
          err_bind (read_block f (current_offset + 1 + 4 * 8) len) (\<lambda>before_img.
          err_bind (read_block f (current_offset + 1 + 4 * 8 + len) len) (\<lambda>after_img.
          Inr (Continue (current_offset + (1 + 4 * 8 + 2 * len),
                 updates @ [\<lparr>ui_txn_id = current_txn_id, ui_page_id = page_id, ui_length = len,
                              ui_offset = off, ui_before_img = before_img,
                              ui_after_img = after_img\<rparr>])))))))
        else
          err_bind (read_u64 f (current_offset + 1 + 2 * 8)) (\<lambda>len.
          Inr (Continue (current_offset + (1 + 4 * 8 + 2 * len), updates))))))"

text \<open>
  The loop itself. A log whose length fields make the 64-bit scan offset wrap around can
  send the scan back to an offset it has visited, so the loop need not end: the result
  is \<open>None\<close> when it does not.
\<close>

partial_function (option) rollback_scan :: "u64 \<Rightarrow> LogManager \<Rightarrow> u64 \<times> UpdateInfo list \<Rightarrow> (error + u64 \<times> UpdateInfo list) option" where
  "rollback_scan txn lm st =
     (if fst st < current_offset_m lm then
        (case rollback_iter txn lm st of
           Inl e \<Rightarrow> Some (Inl e)
         | Inr (Break st') \<Rightarrow> Some (Inr st')
         | Inr (Continue st') \<Rightarrow> rollback_scan txn lm st')
      else Some (Inr st))"

declare rollback_scan.simps [code]

text \<open>The final loop of \<^verbatim>\<open>rollback_txn\<close> writes the before-images, last captured first.\<close>

fun undo_updates :: "UpdateInfo list \<Rightarrow> BufferManager \<Rightarrow> error + BufferManager" where
  "undo_updates [] bm = Inr bm"
| "undo_updates (u # us) bm =
     err_bind (write_page (ui_page_id u) (ui_offset u) (ui_length u) (ui_before_img u) bm)
       (undo_updates us)"

definition rollback_txn :: "u64 \<Rightarrow> LogManager \<Rightarrow> BufferManager \<Rightarrow> (error + LogManager \<times> BufferManager) option" where
  "rollback_txn txn lm bm =
     (case map_find txn (txn_id_to_first_log_record lm) of
        None \<Rightarrow> Some (Inr (lm, bm))
      | Some it \<Rightarrow>
          (case rollback_scan txn lm (0, []) of
             None \<Rightarrow> None
           | Some (Inl e) \<Rightarrow> Some (Inl e)
           | Some (Inr st) \<Rightarrow>
               Some (err_bind (undo_updates (rev (snd st)) bm) (\<lambda>bm'. Inr (lm, bm')))))"

text \<open>\<^verbatim>\<open>log_abort\<close> appends the ABORT record, rolls the transaction back and then forgets it.\<close>

definition log_abort :: "u64 \<Rightarrow> LogManager \<Rightarrow> BufferManager \<Rightarrow> (error + LogManager \<times> BufferManager) option" where
  "log_abort txn lm bm =
     (let cur = current_offset_m lm;
          f0 = resize (log_file_m lm) (cur + 1 + 8) in
      case err_bind (write_block f0 (bytes_of_u64 txn) (cur + 1)) (\<lambda>f1.
           write_block f1 [tag_of ABORT_RECORD] cur) of
        Inl e \<Rightarrow> Some (Inl e)
      | Inr f2 \<Rightarrow>
          (case rollback_txn txn
                  (count_incr ABORT_RECORD (lm\<lparr>log_file_m := f2, current_offset_m := cur + (1 + 8)\<rparr>)) bm of
             None \<Rightarrow> None
           | Some (Inl e) \<Rightarrow> Some (Inl e)
           | Some (Inr (lm', bm')) \<Rightarrow>
               Some (Inr (lm'\<lparr>txn_id_to_first_log_record :=
                                map_erase txn (txn_id_to_first_log_record lm')\<rparr>, bm'))))"

section \<open>Recovery\<close>

text \<open>
  The local variables of \<^verbatim>\<open>recovery\<close>: the scan offset \<^verbatim>\<open>current_offset\<close>, the two
  vectors of decoded updates and the set of aborted transactions.
\<close>

record recovery_locals =
  rl_current_offset :: u64
  updatesPending :: "UpdateInfo list"
  updatesSinceLastCheckpoint :: "UpdateInfo list"
  aborted_txns :: "u64 list"

text \<open>
  The body of the \<^verbatim>\<open>while\<close> loop of \<^verbatim>\<open>recovery\<close>, branch by branch. On
  BEGIN_FUZZY_CHECKPOINT the pending vector is first cleared and then filled from the
  vector of updates since the last checkpoint. As in \<^verbatim>\<open>rollback_txn\<close>, the final
  \<^verbatim>\<open>else\<close> takes every tag other than 0, 5, 6, 7, 4, 2 and 1.
\<close>

definition recovery_iter :: "LogManager \<times> recovery_locals \<Rightarrow> error + (LogManager \<times> recovery_locals) flow" where
  "recovery_iter s =
     (let lm = fst s; st = snd s; f = log_file_m lm; current_offset = rl_current_offset st in
      err_bind (read_u8 f current_offset) (\<lambda>type.
      if type = tag_of INVALID_RECORD_TYPE then Inr (Break s)
      else if type = tag_of CHECKPOINT_RECORD then
        Inr (Continue (count_incr CHECKPOINT_RECORD lm,
               st\<lparr>rl_current_offset := current_offset + 1,
                  updatesPending := [], updatesSinceLastCheckpoint := []\<rparr>))
      else if type = tag_of BEGIN_FUZZY_CHECKPOINT_RECORD then
        Inr (Continue (count_incr BEGIN_FUZZY_CHECKPOINT_RECORD lm,
               st\<lparr>rl_current_offset := current_offset + 1,
                  updatesPending := [] @ updatesSinceLastCheckpoint st,
                  updatesSinceLastCheckpoint := []\<rparr>))
      else if type = tag_of END_FUZZY_CHECKPOINT_RECORD then
        Inr (Continue (count_incr END_FUZZY_CHECKPOINT_RECORD lm,
               st\<lparr>rl_current_offset := current_offset + 1, updatesPending := []\<rparr>))
      else if type = tag_of BEGIN_RECORD then
        err_bind (read_u64 f (current_offset + 1)) (\<lambda>txn_id.
        let total_records = get_total_log_records lm;
            lm1 = lm\<lparr>txn_id_to_first_log_record :=
                       map_insert txn_id total_records (txn_id_to_first_log_record lm)\<rparr>
        in Inr (Continue (count_incr BEGIN_RECORD lm1,
                  st\<lparr>rl_current_offset := current_offset + (1 + 8)\<rparr>)))
      else if type = tag_of COMMIT_RECORD then
        err_bind (read_u64 f (current_offset + 1)) (\<lambda>txn_id.
        let lm1 = lm\<lparr>txn_id_to_first_log_record :=
                       map_erase txn_id (txn_id_to_first_log_record lm)\<rparr>
        in Inr (Continue (count_incr COMMIT_RECORD lm1,
                  st\<lparr>rl_current_offset := current_offset + (1 + 8)\<rparr>)))
      else if type = tag_of ABORT_RECORD then
        err_bind (read_u64 f (current_offset + 1)) (\<lambda>txn_id.
        Inr (Continue (count_incr ABORT_RECORD lm,
               st\<lparr>aborted_txns := set_insert txn_id (aborted_txns st),
                  rl_current_offset := current_offset + (1 + 8)\<rparr>)))
      else
        err_bind (read_u64 f (current_offset + 1)) (\<lambda>current_txn_id.
        err_bind (read_u64 f (current_offset + 1 + 8)) (\<lambda>page_id.
        err_bind (read_u64 f (current_offset + 1 + 2 * 8)) (\<lambda>len.
        err_bind (read_u64 f (current_offset + 1 + 3 * 8)) (\<lambda>off.
        err_bind (read_block f (current_offset + 1 + 4 * 8) len) (\<lambda>before_img.
        err_bind (read_block f (current_offset + 1 + 4 * 8 + len) len) (\<lambda>after_img.
        Inr (Continue (count_incr UPDATE_RECORD lm,
               st\<lparr>updatesSinceLastCheckpoint := updatesSinceLastCheckpoint st @
                      [\<lparr>ui_txn_id = current_txn_id, ui_page_id = page_id, ui_length = len,
                        ui_offset = off, ui_before_img = before_img, ui_after_img = after_img\<rparr>],
                  rl_current_offset := current_offset + (1 + 4 * 8 + 2 * len)\<rparr>))))))))))"

partial_function (option) recovery_scan :: "LogManager \<times> recovery_locals \<Rightarrow> (error + LogManager \<times> recovery_locals) option" where
  "recovery_scan s =
     (if rl_current_offset (snd s) < current_offset_m (fst s) then
        (case recovery_iter s of
           Inl e \<Rightarrow> Some (Inl e)
         | Inr (Break s') \<Rightarrow> Some (Inr s')
         | Inr (Continue s') \<Rightarrow> recovery_scan s')
      else Some (Inr s))"

declare recovery_scan.simps [code]

text \<open>
  After the scan: when the pending vector is not empty, the updates since the last
  checkpoint are moved to its end and the whole is moved back into
  \<^verbatim>\<open>updatesSinceLastCheckpoint\<close>, which is the list of updates that the redo loop visits.
\<close>

definition merge_pending :: "recovery_locals \<Rightarrow> recovery_locals" where
  "merge_pending st =
     (if updatesPending st \<noteq> []
      then st\<lparr>updatesSinceLastCheckpoint := [] @ (updatesPending st @ updatesSinceLastCheckpoint st),
              updatesPending := []\<rparr>
      else st)"

text \<open>The redo loop writes the after-image of every listed update of an aborted transaction.\<close>

fun redo_aborted :: "u64 list \<Rightarrow> UpdateInfo list \<Rightarrow> BufferManager \<Rightarrow> error + BufferManager" where
  "redo_aborted ab [] bm = Inr bm"
| "redo_aborted ab (u # us) bm =
     (if ui_txn_id u \<notin> set ab then redo_aborted ab us bm
      else err_bind (write_page (ui_page_id u) (ui_offset u) (ui_length u) (ui_after_img u) bm)
             (redo_aborted ab us))"

text \<open>The two undo loops call \<^verbatim>\<open>rollback_txn\<close> for one transaction after the other.\<close>

fun rollback_each :: "u64 list \<Rightarrow> LogManager \<Rightarrow> BufferManager \<Rightarrow> (error + LogManager \<times> BufferManager) option" where
  "rollback_each [] lm bm = Some (Inr (lm, bm))"
| "rollback_each (t # ts) lm bm =
     (case rollback_txn t lm bm of
        None \<Rightarrow> None
      | Some (Inl e) \<Rightarrow> Some (Inl e)
      | Some (Inr (lm', bm')) \<Rightarrow> rollback_each ts lm' bm')"

definition recovery_begin :: "LogManager \<Rightarrow> LogManager \<times> recovery_locals" where
  "recovery_begin lm =
     (lm\<lparr>log_record_type_to_count := (log_record_type_to_count lm)
            (ABORT_RECORD := 0, COMMIT_RECORD := 0, UPDATE_RECORD := 0, BEGIN_RECORD := 0,
             CHECKPOINT_RECORD := 0, BEGIN_FUZZY_CHECKPOINT_RECORD := 0,
             END_FUZZY_CHECKPOINT_RECORD := 0),
         current_offset_m := file_size (log_file_m lm)\<rparr>,
      \<lparr>rl_current_offset = 0, updatesPending = [], updatesSinceLastCheckpoint = [],
       aborted_txns = []\<rparr>)"

definition recovery :: "LogManager \<Rightarrow> BufferManager \<Rightarrow> (error + LogManager \<times> BufferManager) option" where
  "recovery lm bm =
     (case recovery_scan (recovery_begin lm) of
        None \<Rightarrow> None
      | Some (Inl e) \<Rightarrow> Some (Inl e)
      | Some (Inr (lm1, st1)) \<Rightarrow>
          (let st2 = merge_pending st1 in
           case redo_aborted (aborted_txns st2) (updatesSinceLastCheckpoint st2) bm of
             Inl e \<Rightarrow> Some (Inl e)
           | Inr bm1 \<Rightarrow>
               (case rollback_each (aborted_txns st2) lm1 bm1 of
                  None \<Rightarrow> None
                | Some (Inl e) \<Rightarrow> Some (Inl e)
                | Some (Inr (lm2, bm2)) \<Rightarrow>
                    rollback_each
                      (filter (\<lambda>t. t \<notin> set (aborted_txns st2))
                         (map fst (txn_id_to_first_log_record lm2)))
                      lm2 bm2)))"

section \<open>Logs as lists of records\<close>

text \<open>
  The record layout of the spec's data model: a tag byte, then the payload. An UPDATE
  record carries four integers and the two images. \<open>encode_tagged\<close> writes an UPDATE
  with a tag byte of the caller's choice, so that logs whose UPDATE-shaped records carry
  another tag can be described as well; \<open>encode_record\<close> uses tag 3.
\<close>

datatype log_record =
    Abort u64
  | Commit u64
  | Update UpdateInfo
  | Begin u64
  | Checkpoint
  | BeginFuzzy
  | EndFuzzy

fun encode_tagged :: "u8 \<Rightarrow> log_record \<Rightarrow> u8 list" where
  "encode_tagged b (Abort t) = tag_of ABORT_RECORD # bytes_of_u64 t"
| "encode_tagged b (Commit t) = tag_of COMMIT_RECORD # bytes_of_u64 t"
| "encode_tagged b (Update u) =
     b # bytes_of_u64 (ui_txn_id u) @ bytes_of_u64 (ui_page_id u) @ bytes_of_u64 (ui_length u)
       @ bytes_of_u64 (ui_offset u) @ ui_before_img u @ ui_after_img u"
| "encode_tagged b (Begin t) = tag_of BEGIN_RECORD # bytes_of_u64 t"
| "encode_tagged b Checkpoint = [tag_of CHECKPOINT_RECORD]"
| "encode_tagged b BeginFuzzy = [tag_of BEGIN_FUZZY_CHECKPOINT_RECORD]"
| "encode_tagged b EndFuzzy = [tag_of END_FUZZY_CHECKPOINT_RECORD]"

definition encode_record :: "log_record \<Rightarrow> u8 list" where
  "encode_record r = encode_tagged (tag_of UPDATE_RECORD) r"

definition encode_log :: "log_record list \<Rightarrow> u8 list" where
  "encode_log rs = concat (map encode_record rs)"

definition encode_log_tagged :: "(u8 \<times> log_record) list \<Rightarrow> u8 list" where
  "encode_log_tagged brs = concat (map (\<lambda>br. encode_tagged (fst br) (snd br)) brs)"

text \<open>An UPDATE record's length field is the byte length of both of its images.\<close>

fun wf_record :: "log_record \<Rightarrow> bool" where
  "wf_record (Update u) =
     (length (ui_before_img u) = unat (ui_length u) \<and> length (ui_after_img u) = unat (ui_length u))"
| "wf_record r = True"

text \<open>The tag bytes that reach the final \<^verbatim>\<open>else\<close> of both scans.\<close>

definition update_tag :: "u8 \<Rightarrow> bool" where
  "update_tag b = (b \<noteq> 0 \<and> b \<noteq> 1 \<and> b \<noteq> 2 \<and> b \<noteq> 4 \<and> b \<noteq> 5 \<and> b \<noteq> 6 \<and> b \<noteq> 7)"

text \<open>
  What one record does to the state of recovery's scan, and which updates the scan of
  \<^verbatim>\<open>rollback_txn\<close> captures from a list of records. Both are shown below to be what
  the loops compute on an encoded log.
\<close>

fun replay :: "log_record \<Rightarrow> LogManager \<times> recovery_locals \<Rightarrow> LogManager \<times> recovery_locals" where
  "replay Checkpoint (lm, st) =
     (count_incr CHECKPOINT_RECORD lm,
      st\<lparr>rl_current_offset := rl_current_offset st + 1,
         updatesPending := [], updatesSinceLastCheckpoint := []\<rparr>)"
| "replay BeginFuzzy (lm, st) =
     (count_incr BEGIN_FUZZY_CHECKPOINT_RECORD lm,
      st\<lparr>rl_current_offset := rl_current_offset st + 1,
         updatesPending := updatesSinceLastCheckpoint st, updatesSinceLastCheckpoint := []\<rparr>)"
| "replay EndFuzzy (lm, st) =
     (count_incr END_FUZZY_CHECKPOINT_RECORD lm,
      st\<lparr>rl_current_offset := rl_current_offset st + 1, updatesPending := []\<rparr>)"
| "replay (Begin t) (lm, st) =
     (count_incr BEGIN_RECORD
        (lm\<lparr>txn_id_to_first_log_record :=
              map_insert t (get_total_log_records lm) (txn_id_to_first_log_record lm)\<rparr>),
      st\<lparr>rl_current_offset := rl_current_offset st + (1 + 8)\<rparr>)"
| "replay (Commit t) (lm, st) =
     (count_incr COMMIT_RECORD
        (lm\<lparr>txn_id_to_first_log_record := map_erase t (txn_id_to_first_log_record lm)\<rparr>),
      st\<lparr>rl_current_offset := rl_current_offset st + (1 + 8)\<rparr>)"
| "replay (Abort t) (lm, st) =
     (count_incr ABORT_RECORD lm,
      st\<lparr>aborted_txns := set_insert t (aborted_txns st),
         rl_current_offset := rl_current_offset st + (1 + 8)\<rparr>)"
| "replay (Update u) (lm, st) =
     (count_incr UPDATE_RECORD lm,
      st\<lparr>updatesSinceLastCheckpoint := updatesSinceLastCheckpoint st @ [u],
         rl_current_offset := rl_current_offset st + (1 + 4 * 8 + 2 * ui_length u)\<rparr>)"

fun captured :: "u64 \<Rightarrow> log_record list \<Rightarrow> UpdateInfo list" where
  "captured t [] = []"
| "captured t (Abort t' # rs) = (if t' = t then [] else captured t rs)"
| "captured t (Update u # rs) = (if ui_txn_id u = t then u # captured t rs else captured t rs)"
| "captured t (r # rs) = captured t rs"

text \<open>The UPDATE descriptors of a list of records, in order.\<close>

fun updates_of :: "log_record list \<Rightarrow> UpdateInfo list" where
  "updates_of [] = []"
| "updates_of (Update u # rs) = u # updates_of rs"
| "updates_of (r # rs) = updates_of rs"

text \<open>Records that empty or refill the pending vector during recovery's scan.\<close>

fun checkpoint_like :: "log_record \<Rightarrow> bool" where
  "checkpoint_like Checkpoint = True"
| "checkpoint_like BeginFuzzy = True"
| "checkpoint_like EndFuzzy = True"
| "checkpoint_like r = False"

section \<open>Sequences of appends\<close>

text \<open>
  The public operations that append a record, as values, so that a history of the log
  manager is a list. \<open>record_of_op\<close> is the record an operation writes and \<open>kind_of_op\<close>
  the kind it counts.
\<close>

datatype append_op =
    OpAbort u64
  | OpCommit u64
  | OpUpdate u64 u64 u64 u64 "u8 list" "u8 list"
  | OpBegin u64
  | OpCheckpoint
  | OpFuzzyBegin
  | OpFuzzyEnd

fun apply_op :: "append_op \<Rightarrow> LogManager \<times> BufferManager \<Rightarrow> (error + LogManager \<times> BufferManager) option" where
  "apply_op (OpAbort t) (lm, bm) = log_abort t lm bm"
| "apply_op (OpCommit t) (lm, bm) = Some (err_bind (log_commit t lm) (\<lambda>lm'. Inr (lm', bm)))"
| "apply_op (OpUpdate t p len off b a) (lm, bm) =
     Some (err_bind (log_update t p len off b a lm) (\<lambda>lm'. Inr (lm', bm)))"
| "apply_op (OpBegin t) (lm, bm) = Some (err_bind (log_txn_begin t lm) (\<lambda>lm'. Inr (lm', bm)))"
| "apply_op OpCheckpoint (lm, bm) = Some (log_checkpoint lm bm)"
| "apply_op OpFuzzyBegin (lm, bm) =
     Some (err_bind (log_fuzzy_checkpoint_begin lm bm) (\<lambda>r. Inr (fst r, fst (snd r))))"
| "apply_op OpFuzzyEnd (lm, bm) = Some (err_bind (log_fuzzy_checkpoint_end lm) (\<lambda>lm'. Inr (lm', bm)))"

fun run_ops :: "append_op list \<Rightarrow> LogManager \<times> BufferManager \<Rightarrow> (error + LogManager \<times> BufferManager) option" where
  "run_ops [] s = Some (Inr s)"
| "run_ops (op # ops) s =
     (case apply_op op s of
        None \<Rightarrow> None
      | Some (Inl e) \<Rightarrow> Some (Inl e)
      | Some (Inr s') \<Rightarrow> run_ops ops s')"

fun kind_of_op :: "append_op \<Rightarrow> LogRecordType" where
  "kind_of_op (OpAbort t) = ABORT_RECORD"
| "kind_of_op (OpCommit t) = COMMIT_RECORD"
| "kind_of_op (OpUpdate t p len off b a) = UPDATE_RECORD"
| "kind_of_op (OpBegin t) = BEGIN_RECORD"
| "kind_of_op OpCheckpoint = CHECKPOINT_RECORD"
| "kind_of_op OpFuzzyBegin = BEGIN_FUZZY_CHECKPOINT_RECORD"
| "kind_of_op OpFuzzyEnd = END_FUZZY_CHECKPOINT_RECORD"


section \<open>Observations of a scan\<close>

text \<open>
  Recovery as the tests run it: \<^verbatim>\<open>reset\<close> on the reopened file, then \<^verbatim>\<open>recovery\<close>.
  \<open>scan_log\<close> is the state at the end of the forward scan; the other functions read
  one part of it. \<open>redo_candidates\<close> is the list that the redo loop visits.
\<close>

definition scan_log :: "File \<Rightarrow> (error + LogManager \<times> recovery_locals) option" where
  "scan_log f = recovery_scan (recovery_begin (LogManager_new f))"

definition pending_after_scan :: "File \<Rightarrow> (error + UpdateInfo list) option" where
  "pending_after_scan f = map_option (map_sum id (\<lambda>s. updatesPending (snd s))) (scan_log f)"

definition since_after_scan :: "File \<Rightarrow> (error + UpdateInfo list) option" where
  "since_after_scan f =
     map_option (map_sum id (\<lambda>s. updatesSinceLastCheckpoint (snd s))) (scan_log f)"

definition redo_candidates :: "File \<Rightarrow> (error + UpdateInfo list) option" where
  "redo_candidates f =
     map_option (map_sum id (\<lambda>s. updatesSinceLastCheckpoint (merge_pending (snd s)))) (scan_log f)"


definition txns_after_recovery :: "File \<Rightarrow> BufferManager \<Rightarrow> (error + (u64 \<times> u64) list) option" where
  "txns_after_recovery f bm =
     map_option (map_sum id (\<lambda>s. txn_id_to_first_log_record (fst s)))
       (recovery (reset f (LogManager_new [])) bm)"


text \<open>A buffer pool whose pages all hold \<open>n\<close> zero bytes and none of which is dirty.\<close>

definition blank_pool :: "nat \<Rightarrow> BufferManager" where
  "blank_pool n = \<lparr>bm_pages = (\<lambda>p. replicate n 0), bm_disk = (\<lambda>p. replicate n 0), bm_dirty = []\<rparr>"

section \<open>Page cells written by a list of updates\<close>

text \<open>
  \<open>covers u p i\<close>: the before-image of \<open>u\<close> is copied over byte \<open>i\<close> of page \<open>p\<close>.
  \<open>overlay us p i\<close>: the byte that the last covering update of \<open>us\<close> leaves there.
\<close>

definition covers :: "UpdateInfo \<Rightarrow> u64 \<Rightarrow> nat \<Rightarrow> bool" where
  "covers u p i =
     (ui_page_id u = p \<and> unat (ui_offset u) \<le> i \<and> i < unat (ui_offset u) + unat (ui_length u))"

fun overlay :: "UpdateInfo list \<Rightarrow> u64 \<Rightarrow> nat \<Rightarrow> u8 option" where
  "overlay [] p i = None"
| "overlay (u # us) p i =
     (case overlay us p i of
        Some v \<Rightarrow> Some v
      | None \<Rightarrow> if covers u p i then Some (ui_before_img u ! (i - unat (ui_offset u))) else None)"


text \<open>\<^verbatim>\<open>rollback_txn\<close> called twice in succession, with nothing appended in between.\<close>

definition rollback_twice :: "u64 \<Rightarrow> LogManager \<Rightarrow> BufferManager \<Rightarrow> (error + LogManager \<times> BufferManager) option" where
  "rollback_twice t lm bm =
     (case rollback_txn t lm bm of
        None \<Rightarrow> None
      | Some (Inl e) \<Rightarrow> Some (Inl e)
      | Some (Inr (lm', bm')) \<Rightarrow> rollback_txn t lm' bm')"

text \<open>
  The total record count after a list of appends on a log manager that was just reset,
  and after \<^verbatim>\<open>reset\<close> followed by \<^verbatim>\<open>recovery\<close>.
\<close>

definition total_after_ops :: "append_op list \<Rightarrow> File \<Rightarrow> BufferManager \<Rightarrow> (error + u64) option" where
  "total_after_ops ops f bm =
     map_option (map_sum id (\<lambda>s. get_total_log_records (fst s)))
       (run_ops ops (reset f (LogManager_new []), bm))"

definition total_after_recovery :: "File \<Rightarrow> BufferManager \<Rightarrow> (error + u64) option" where
  "total_after_recovery f bm =
     map_option (map_sum id (\<lambda>s. get_total_log_records (fst s)))
       (recovery (reset f (LogManager_new [])) bm)"


text \<open>The map after a list of appends on a new log manager.\<close>

definition txns_after_ops :: "append_op list \<Rightarrow> BufferManager \<Rightarrow> (error + (u64 \<times> u64) list) option" where
  "txns_after_ops ops bm =
     map_option (map_sum id (\<lambda>s. txn_id_to_first_log_record (fst s)))
       (run_ops ops (LogManager_new [], bm))"



section \<open>Properties\<close>

subsection \<open>Integers survive the round trip through the file\<close>

lemma bit_u64_of_bytes: "bit (u64_of_bytes (bytes_of_word k w)) n \<longleftrightarrow> n < 8 * k \<and> bit w n"
proof (induction k arbitrary: w n)
  case 0
  then show ?case by simp
next
  case (Suc k)
  show ?case
  proof (cases "n < 8")
    case True
    then show ?thesis by (simp add: bit_simps Suc)
  next
    case False
    then show ?thesis by (auto simp add: bit_simps Suc dest: bit_imp_le_length)
  qed
qed

lemma u64_of_bytes_of_u64 [simp]: "u64_of_bytes (bytes_of_u64 w) = w"
  by (rule bit_word_eqI) (simp add: bytes_of_u64_def bit_u64_of_bytes)

lemma length_bytes_of_word: "length (bytes_of_word k w) = k"
  by (induction k arbitrary: w) simp_all

lemma length_bytes_of_u64 [simp]: "length (bytes_of_u64 w) = 8"
  by (simp add: bytes_of_u64_def length_bytes_of_word)

subsection \<open>Reading a file that is laid out as a list of parts\<close>

lemma unat_of_nat64: "n < 2 ^ 64 \<Longrightarrow> unat (of_nat n :: u64) = n"
  by (simp add: unat_of_nat)

lemma read_block_mid:
  assumes "f = pre @ mid @ post" and "off = of_nat (length pre)" and "n = of_nat (length mid)"
    and "length pre + length mid < 2 ^ 64"
  shows "read_block f off n = Inr mid"
proof -
  have "unat off = length pre" "unat n = length mid"
    using assms by (simp_all add: unat_of_nat64)
  then show ?thesis using assms(1) by (simp add: read_block_def)
qed

lemma read_u8_at:
  assumes "f = pre @ b # post" and "off = of_nat (length pre)" and "length pre + 1 < 2 ^ 64"
  shows "read_u8 f off = Inr b"
  using read_block_mid [of f pre "[b]" post off 1] assms
  by (simp add: read_u8_def err_bind_def)

lemma read_u64_at:
  assumes "f = pre @ bytes_of_u64 w @ post" and "off = of_nat (length pre)"
    and "length pre + 8 < 2 ^ 64"
  shows "read_u64 f off = Inr w"
  using read_block_mid [of f pre "bytes_of_u64 w" post off 8] assms
  by (simp add: read_u64_def err_bind_def)


subsection \<open>One round of recovery's loop on an encoded record\<close>

lemma recovery_iter_update:
  assumes f: "log_file_m lm = pre @ encode_tagged b (Update u) @ post"
    and off: "rl_current_offset st = of_nat (length pre)"
    and len: "length pre + length (encode_tagged b (Update u)) < 2 ^ 64"
    and wf: "wf_record (Update u)" and b: "update_tag b"
  shows "recovery_iter (lm, st) = Inr (Continue (replay (Update u) (lm, st)))"
proof -
  let ?f = "log_file_m lm" and ?o = "rl_current_offset st"
  let ?T = "bytes_of_u64 (ui_txn_id u)" and ?P = "bytes_of_u64 (ui_page_id u)"
  let ?L = "bytes_of_u64 (ui_length u)" and ?O = "bytes_of_u64 (ui_offset u)"
  let ?B = "ui_before_img u" and ?A = "ui_after_img u"
  have lB: "length ?B = unat (ui_length u)" and lA: "length ?A = unat (ui_length u)"
    using wf by simp_all
  have r0: "read_u8 ?f ?o = Inr b"
    using f off len by (intro read_u8_at [where pre = pre and post = "?T @ ?P @ ?L @ ?O @ ?B @ ?A @ post"]) simp_all
  have r1: "read_u64 ?f (?o + 1) = Inr (ui_txn_id u)"
    using f off len by (intro read_u64_at [where pre = "pre @ [b]" and post = "?P @ ?L @ ?O @ ?B @ ?A @ post"]) simp_all
  have r2: "read_u64 ?f (?o + 1 + 8) = Inr (ui_page_id u)"
    using f off len by (intro read_u64_at [where pre = "pre @ [b] @ ?T" and post = "?L @ ?O @ ?B @ ?A @ post"]) simp_all
  have r3: "read_u64 ?f (?o + 1 + 2 * 8) = Inr (ui_length u)"
    using f off len by (intro read_u64_at [where pre = "pre @ [b] @ ?T @ ?P" and post = "?O @ ?B @ ?A @ post"]) simp_all
  have r4: "read_u64 ?f (?o + 1 + 3 * 8) = Inr (ui_offset u)"
    using f off len by (intro read_u64_at [where pre = "pre @ [b] @ ?T @ ?P @ ?L" and post = "?B @ ?A @ post"]) simp_all
  have r5: "read_block ?f (?o + 1 + 4 * 8) (ui_length u) = Inr ?B"
    using f off len lB by (intro read_block_mid [where pre = "pre @ [b] @ ?T @ ?P @ ?L @ ?O" and post = "?A @ post"]) simp_all
  have r6: "read_block ?f (?o + 1 + 4 * 8 + ui_length u) (ui_length u) = Inr ?A"
    using f off len lB lA by (intro read_block_mid [where pre = "pre @ [b] @ ?T @ ?P @ ?L @ ?O @ ?B" and post = post]) simp_all
  show ?thesis
    using b r0 r1 r2 r3 r4 r5 r6
    by (simp add: recovery_iter_def err_bind_def Let_def update_tag_def)
qed

lemma recovery_iter_record:
  assumes f: "log_file_m lm = pre @ encode_tagged b r @ post"
    and off: "rl_current_offset st = of_nat (length pre)"
    and len: "length pre + length (encode_tagged b r) < 2 ^ 64"
    and wf: "wf_record r" and b: "update_tag b"
  shows "recovery_iter (lm, st) = Inr (Continue (replay r (lm, st)))"
proof (cases r)
  case (Update u)
  then show ?thesis using assms recovery_iter_update by simp
next
  case (Abort t)
  have "read_u8 (log_file_m lm) (rl_current_offset st) = Inr 1"
    using assms Abort by (intro read_u8_at [where pre = pre and post = "bytes_of_u64 t @ post"]) simp_all
  moreover have "read_u64 (log_file_m lm) (rl_current_offset st + 1) = Inr t"
    using assms Abort by (intro read_u64_at [where pre = "pre @ [1]" and post = post]) simp_all
  ultimately show ?thesis using Abort
    by (simp add: recovery_iter_def err_bind_def Let_def)
next
  case (Commit t)
  have "read_u8 (log_file_m lm) (rl_current_offset st) = Inr 2"
    using assms Commit by (intro read_u8_at [where pre = pre and post = "bytes_of_u64 t @ post"]) simp_all
  moreover have "read_u64 (log_file_m lm) (rl_current_offset st + 1) = Inr t"
    using assms Commit by (intro read_u64_at [where pre = "pre @ [2]" and post = post]) simp_all
  ultimately show ?thesis using Commit
    by (simp add: recovery_iter_def err_bind_def Let_def)
next
  case (Begin t)
  have "read_u8 (log_file_m lm) (rl_current_offset st) = Inr 4"
    using assms Begin by (intro read_u8_at [where pre = pre and post = "bytes_of_u64 t @ post"]) simp_all
  moreover have "read_u64 (log_file_m lm) (rl_current_offset st + 1) = Inr t"
    using assms Begin by (intro read_u64_at [where pre = "pre @ [4]" and post = post]) simp_all
  ultimately show ?thesis using Begin
    by (simp add: recovery_iter_def err_bind_def Let_def)
next
  case Checkpoint
  have "read_u8 (log_file_m lm) (rl_current_offset st) = Inr 5"
    using assms Checkpoint by (intro read_u8_at [where pre = pre and post = post]) simp_all
  then show ?thesis using Checkpoint
    by (simp add: recovery_iter_def err_bind_def Let_def)
next
  case BeginFuzzy
  have "read_u8 (log_file_m lm) (rl_current_offset st) = Inr 6"
    using assms BeginFuzzy by (intro read_u8_at [where pre = pre and post = post]) simp_all
  then show ?thesis using BeginFuzzy
    by (simp add: recovery_iter_def err_bind_def Let_def)
next
  case EndFuzzy
  have "read_u8 (log_file_m lm) (rl_current_offset st) = Inr 7"
    using assms EndFuzzy by (intro read_u8_at [where pre = pre and post = post]) simp_all
  then show ?thesis using EndFuzzy
    by (simp add: recovery_iter_def err_bind_def Let_def)
qed


subsection \<open>Recovery's scan of an encoded log\<close>

lemma replay_frame:
  "log_file_m (fst (replay r s)) = log_file_m (fst s)"
  "current_offset_m (fst (replay r s)) = current_offset_m (fst s)"
  "fuzzy_checkpoint_page_ids (fst (replay r s)) = fuzzy_checkpoint_page_ids (fst s)"
  by (cases r; cases s; simp add: count_incr_def)+

lemma replay_offset:
  "wf_record r \<Longrightarrow>
   rl_current_offset (snd (replay r s)) = rl_current_offset (snd s) + of_nat (length (encode_tagged b r))"
  by (cases r; cases s) simp_all

lemma length_encode_tagged_pos: "0 < length (encode_tagged b r)"
  by (cases r) simp_all

lemma of_nat_less64: "m < n \<Longrightarrow> n < 2 ^ 64 \<Longrightarrow> (of_nat m :: u64) < of_nat n"
  by (simp add: word_less_nat_alt unat_of_nat64)

lemma recovery_scan_tagged:
  assumes "log_file_m (fst s) = pre @ encode_log_tagged brs"
    and "current_offset_m (fst s) = of_nat (length (log_file_m (fst s)))"
    and "length (log_file_m (fst s)) < 2 ^ 64"
    and "rl_current_offset (snd s) = of_nat (length pre)"
    and "\<forall>br \<in> set brs. wf_record (snd br) \<and> update_tag (fst br)"
  shows "recovery_scan s = Some (Inr (fold replay (map snd brs) s))"
  using assms
proof (induction brs arbitrary: pre s)
  case Nil
  then show ?case
    by (subst recovery_scan.simps) (simp add: encode_log_tagged_def)
next
  case (Cons br brs)
  obtain b r where br: "br = (b, r)" by (cases br)
  obtain lm st where s: "s = (lm, st)" by (cases s)
  let ?e = "encode_tagged b r"
  have f: "log_file_m lm = pre @ ?e @ encode_log_tagged brs"
    using Cons.prems(1) br s by (simp add: encode_log_tagged_def)
  have len: "length pre + length ?e \<le> length (log_file_m lm)"
    using f by simp
  have "length pre < length (log_file_m lm)"
    using len length_encode_tagged_pos [of b r] by linarith
  then have "(of_nat (length pre) :: u64) < of_nat (length (log_file_m lm))"
    using Cons.prems(3) s by (intro of_nat_less64) simp_all
  then have lt: "rl_current_offset st < current_offset_m lm"
    using Cons.prems(2,4) s by (simp del: of_nat_add)
  have wf: "wf_record r" "update_tag b" using Cons.prems(5) br by simp_all
  have iter: "recovery_iter (lm, st) = Inr (Continue (replay r (lm, st)))"
    using f Cons.prems s len wf
    by (intro recovery_iter_record [where pre = pre and b = b and post = "encode_log_tagged brs"]) simp_all
  have "recovery_scan (replay r (lm, st)) = Some (Inr (fold replay (map snd brs) (replay r (lm, st))))"
  proof (rule Cons.IH [where pre = "pre @ ?e"])
    show "log_file_m (fst (replay r (lm, st))) = (pre @ ?e) @ encode_log_tagged brs"
      using f by (simp add: replay_frame)
    show "current_offset_m (fst (replay r (lm, st))) = of_nat (length (log_file_m (fst (replay r (lm, st)))))"
      using Cons.prems(2) s by (simp add: replay_frame)
    show "length (log_file_m (fst (replay r (lm, st)))) < 2 ^ 64"
      using Cons.prems(3) s by (simp add: replay_frame)
    show "rl_current_offset (snd (replay r (lm, st))) = of_nat (length (pre @ ?e))"
      using Cons.prems(4) s wf(1) by (simp add: replay_offset [where b = b])
    show "\<forall>br \<in> set brs. wf_record (snd br) \<and> update_tag (fst br)"
      using Cons.prems(5) by simp
  qed
  then show ?case
    using lt iter s br by (subst recovery_scan.simps) simp
qed


subsection \<open>The scan of rollback on an encoded log\<close>

lemma rollback_iter_update:
  assumes f: "log_file_m lm = pre @ encode_tagged b (Update u) @ post"
    and len: "length pre + length (encode_tagged b (Update u)) < 2 ^ 64"
    and wf: "wf_record (Update u)" and b: "update_tag b"
  shows "rollback_iter txn lm (of_nat (length pre), ups) =
         Inr (Continue (of_nat (length pre + length (encode_tagged b (Update u))),
                ups @ captured txn [Update u]))"
proof -
  let ?f = "log_file_m lm" and ?o = "of_nat (length pre) :: u64"
  let ?T = "bytes_of_u64 (ui_txn_id u)" and ?P = "bytes_of_u64 (ui_page_id u)"
  let ?L = "bytes_of_u64 (ui_length u)" and ?O = "bytes_of_u64 (ui_offset u)"
  let ?B = "ui_before_img u" and ?A = "ui_after_img u"
  have lB: "length ?B = unat (ui_length u)" and lA: "length ?A = unat (ui_length u)"
    using wf by simp_all
  have r0: "read_u8 ?f ?o = Inr b"
    using f len by (intro read_u8_at [where pre = pre and post = "?T @ ?P @ ?L @ ?O @ ?B @ ?A @ post"]) simp_all
  have r1: "read_u64 ?f (?o + 1) = Inr (ui_txn_id u)"
    using f len by (intro read_u64_at [where pre = "pre @ [b]" and post = "?P @ ?L @ ?O @ ?B @ ?A @ post"]) simp_all
  have r2: "read_u64 ?f (?o + 1 + 8) = Inr (ui_page_id u)"
    using f len by (intro read_u64_at [where pre = "pre @ [b] @ ?T" and post = "?L @ ?O @ ?B @ ?A @ post"]) simp_all
  have r3: "read_u64 ?f (?o + 1 + 2 * 8) = Inr (ui_length u)"
    using f len by (intro read_u64_at [where pre = "pre @ [b] @ ?T @ ?P" and post = "?O @ ?B @ ?A @ post"]) simp_all
  have r4: "read_u64 ?f (?o + 1 + 3 * 8) = Inr (ui_offset u)"
    using f len by (intro read_u64_at [where pre = "pre @ [b] @ ?T @ ?P @ ?L" and post = "?B @ ?A @ post"]) simp_all
  have r5: "read_block ?f (?o + 1 + 4 * 8) (ui_length u) = Inr ?B"
    using f len lB by (intro read_block_mid [where pre = "pre @ [b] @ ?T @ ?P @ ?L @ ?O" and post = "?A @ post"]) simp_all
  have r6: "read_block ?f (?o + 1 + 4 * 8 + ui_length u) (ui_length u) = Inr ?A"
    using f len lB lA by (intro read_block_mid [where pre = "pre @ [b] @ ?T @ ?P @ ?L @ ?O @ ?B" and post = post]) simp_all
  show ?thesis
    using b r0 r1 r2 r3 r4 r5 r6 lB lA
    by (simp add: rollback_iter_def err_bind_def Let_def update_tag_def)
qed

lemma rollback_iter_record:
  assumes f: "log_file_m lm = pre @ encode_tagged b r @ post"
    and len: "length pre + length (encode_tagged b r) < 2 ^ 64"
    and wf: "wf_record r" and b: "update_tag b"
  shows "rollback_iter txn lm (of_nat (length pre), ups) =
         Inr ((if r = Abort txn then Break else Continue)
                (of_nat (length pre + length (encode_tagged b r)), ups @ captured txn [r]))"
proof (cases r)
  case (Update u)
  then show ?thesis using assms rollback_iter_update by simp
next
  case (Abort t)
  have "read_u8 (log_file_m lm) (of_nat (length pre)) = Inr 1"
    using assms Abort by (intro read_u8_at [where pre = pre and post = "bytes_of_u64 t @ post"]) simp_all
  moreover have "read_u64 (log_file_m lm) (of_nat (length pre) + 1) = Inr t"
    using assms Abort by (intro read_u64_at [where pre = "pre @ [1]" and post = post]) simp_all
  ultimately show ?thesis using Abort
    by (simp add: rollback_iter_def err_bind_def Let_def)
next
  case (Commit t)
  have "read_u8 (log_file_m lm) (of_nat (length pre)) = Inr 2"
    using assms Commit by (intro read_u8_at [where pre = pre and post = "bytes_of_u64 t @ post"]) simp_all
  then show ?thesis using Commit
    by (simp add: rollback_iter_def err_bind_def Let_def)
next
  case (Begin t)
  have "read_u8 (log_file_m lm) (of_nat (length pre)) = Inr 4"
    using assms Begin by (intro read_u8_at [where pre = pre and post = "bytes_of_u64 t @ post"]) simp_all
  then show ?thesis using Begin
    by (simp add: rollback_iter_def err_bind_def Let_def)
next
  case Checkpoint
  have "read_u8 (log_file_m lm) (of_nat (length pre)) = Inr 5"
    using assms Checkpoint by (intro read_u8_at [where pre = pre and post = post]) simp_all
  then show ?thesis using Checkpoint
    by (simp add: rollback_iter_def err_bind_def Let_def)
next
  case BeginFuzzy
  have "read_u8 (log_file_m lm) (of_nat (length pre)) = Inr 6"
    using assms BeginFuzzy by (intro read_u8_at [where pre = pre and post = post]) simp_all
  then show ?thesis using BeginFuzzy
    by (simp add: rollback_iter_def err_bind_def Let_def)
next
  case EndFuzzy
  have "read_u8 (log_file_m lm) (of_nat (length pre)) = Inr 7"
    using assms EndFuzzy by (intro read_u8_at [where pre = pre and post = post]) simp_all
  then show ?thesis using EndFuzzy
    by (simp add: rollback_iter_def err_bind_def Let_def)
qed

lemma captured_Cons: "r \<noteq> Abort t \<Longrightarrow> captured t (r # rs) = captured t [r] @ captured t rs"
  by (cases r) simp_all

lemma rollback_scan_tagged:
  assumes "log_file_m lm = pre @ encode_log_tagged brs"
    and "current_offset_m lm = of_nat (length (log_file_m lm))"
    and "length (log_file_m lm) < 2 ^ 64"
    and "\<forall>br \<in> set brs. wf_record (snd br) \<and> update_tag (fst br)"
  shows "\<exists>off. rollback_scan txn lm (of_nat (length pre), ups) =
           Some (Inr (off, ups @ captured txn (map snd brs)))"
  using assms
proof (induction brs arbitrary: pre ups)
  case Nil
  then show ?case
    by (subst rollback_scan.simps) (simp add: encode_log_tagged_def)
next
  case (Cons br brs)
  obtain b r where br: "br = (b, r)" by (cases br)
  let ?e = "encode_tagged b r"
  have f: "log_file_m lm = pre @ ?e @ encode_log_tagged brs"
    using Cons.prems(1) br by (simp add: encode_log_tagged_def)
  have len: "length pre + length ?e \<le> length (log_file_m lm)"
    using f by simp
  have "length pre < length (log_file_m lm)"
    using len length_encode_tagged_pos [of b r] by linarith
  then have "(of_nat (length pre) :: u64) < of_nat (length (log_file_m lm))"
    using Cons.prems(3) by (intro of_nat_less64) simp_all
  then have lt: "(of_nat (length pre) :: u64) < current_offset_m lm"
    using Cons.prems(2) by (simp del: of_nat_add)
  have wf: "wf_record r" "update_tag b" using Cons.prems(4) br by simp_all
  have iter: "rollback_iter txn lm (of_nat (length pre), ups) =
         Inr ((if r = Abort txn then Break else Continue)
                (of_nat (length pre + length ?e), ups @ captured txn [r]))"
    using f Cons.prems len wf
    by (intro rollback_iter_record [where post = "encode_log_tagged brs"]) simp_all
  show ?case
  proof (cases "r = Abort txn")
    case True
    then show ?thesis
      using lt iter br by (subst rollback_scan.simps) simp
  next
    case False
    have "\<exists>off. rollback_scan txn lm (of_nat (length (pre @ ?e)), ups @ captured txn [r]) =
           Some (Inr (off, (ups @ captured txn [r]) @ captured txn (map snd brs)))"
      using f Cons.prems by (intro Cons.IH) simp_all
    then show ?thesis
      using lt iter br False captured_Cons [OF False, of "map snd brs"]
      by (subst rollback_scan.simps) (simp del: of_nat_add)
  qed
qed

section \<open>Degenerate calls\<close>

text \<open>
  Claim C9. \<^verbatim>\<open>rollback_txn\<close> called with a transaction id that has no entry in
  \<^verbatim>\<open>txn_id_to_first_log_record\<close>, and \<^verbatim>\<open>log_fuzzy_checkpoint_do_step\<close> called with a step
  index that is at least the size of \<^verbatim>\<open>fuzzy_checkpoint_page_ids\<close>, return at once: the
  log manager (file, offset, counters, maps) and the buffer pool come back as they were.
\<close>

theorem unknown_txn_and_step_out_of_range_are_noops:
  "(map_find t (txn_id_to_first_log_record lm) = None \<longrightarrow>
      rollback_txn t lm bm = Some (Inr (lm, bm)))
   \<and> (length (fuzzy_checkpoint_page_ids lm) \<le> step \<longrightarrow>
      log_fuzzy_checkpoint_do_step lm bm step = (lm, bm))"
  by (simp add: rollback_txn_def log_fuzzy_checkpoint_do_step_def)

theorem unknown_txn_and_step_out_of_range_are_noops_witness:
  "map_find 5 (txn_id_to_first_log_record
      ((LogManager_new [])\<lparr>txn_id_to_first_log_record := [(7, 0)], fuzzy_checkpoint_page_ids := [3]\<rparr>)) = None
   \<and> rollback_txn 5
        ((LogManager_new [])\<lparr>txn_id_to_first_log_record := [(7, 0)], fuzzy_checkpoint_page_ids := [3]\<rparr>)
        (blank_pool 4)
      = Some (Inr ((LogManager_new [])\<lparr>txn_id_to_first_log_record := [(7, 0)], fuzzy_checkpoint_page_ids := [3]\<rparr>,
                   blank_pool 4))
   \<and> length (fuzzy_checkpoint_page_ids
        ((LogManager_new [])\<lparr>txn_id_to_first_log_record := [(7, 0)], fuzzy_checkpoint_page_ids := [3]\<rparr>)) \<le> 1
   \<and> log_fuzzy_checkpoint_do_step
        ((LogManager_new [])\<lparr>txn_id_to_first_log_record := [(7, 0)], fuzzy_checkpoint_page_ids := [3]\<rparr>)
        (blank_pool 4) 1
      = ((LogManager_new [])\<lparr>txn_id_to_first_log_record := [(7, 0)], fuzzy_checkpoint_page_ids := [3]\<rparr>,
         blank_pool 4)"
proof -
  let ?lm = "(LogManager_new [])\<lparr>txn_id_to_first_log_record := [(7, 0)], fuzzy_checkpoint_page_ids := [3]\<rparr>"
  have h1: "map_find 5 (txn_id_to_first_log_record ?lm) = None"
    by (simp add: map_find_def)
  have h2: "length (fuzzy_checkpoint_page_ids ?lm) \<le> 1"
    by simp
  show ?thesis
    using unknown_txn_and_step_out_of_range_are_noops [of 5 ?lm "blank_pool 4" 1] h1 h2
    by blast
qed

text \<open>
  Claim C10. For a step index inside \<^verbatim>\<open>fuzzy_checkpoint_page_ids\<close>,
  \<^verbatim>\<open>log_fuzzy_checkpoint_do_step\<close> returns the log manager unchanged in every field (no
  record is appended, no counter or map changes, the page id list stays) and its only
  effect is the call of \<^verbatim>\<open>flush_page\<close> for the page id stored at that step.
\<close>

theorem fuzzy_step_in_range_only_flushes:
  "step < length (fuzzy_checkpoint_page_ids lm) \<Longrightarrow>
   log_fuzzy_checkpoint_do_step lm bm step =
     (lm, flush_page (fuzzy_checkpoint_page_ids lm ! step) bm)"
  by (simp add: log_fuzzy_checkpoint_do_step_def)

theorem fuzzy_step_in_range_only_flushes_witness:
  "0 < length (fuzzy_checkpoint_page_ids ((LogManager_new [])\<lparr>fuzzy_checkpoint_page_ids := [3, 9]\<rparr>))
   \<and> log_fuzzy_checkpoint_do_step ((LogManager_new [])\<lparr>fuzzy_checkpoint_page_ids := [3, 9]\<rparr>)
        ((blank_pool 4)\<lparr>bm_dirty := [9, 3]\<rparr>) 0
      = ((LogManager_new [])\<lparr>fuzzy_checkpoint_page_ids := [3, 9]\<rparr>,
         flush_page 3 ((blank_pool 4)\<lparr>bm_dirty := [9, 3]\<rparr>))"
proof -
  let ?lm = "(LogManager_new [])\<lparr>fuzzy_checkpoint_page_ids := [3, 9]\<rparr>"
  have h: "0 < length (fuzzy_checkpoint_page_ids ?lm)" by simp
  show ?thesis
    using fuzzy_step_in_range_only_flushes [OF h, of "(blank_pool 4)\<lparr>bm_dirty := [9, 3]\<rparr>"] h
    by simp
qed

section \<open>Recovery's scan on logs written record by record\<close>

lemma encode_log_as_tagged: "encode_log rs = encode_log_tagged (map (Pair (3::u8)) rs)"
  by (induction rs) (simp_all add: encode_log_def encode_log_tagged_def encode_record_def)

lemma reset_is_new: "reset f lm = LogManager_new f"
  by (simp add: reset_def LogManager_new_def)

lemma scan_log_encoded:
  assumes "\<forall>r \<in> set rs. wf_record r" and "length (encode_log rs) < 2 ^ 64"
  shows "scan_log (encode_log rs) =
         Some (Inr (fold replay rs (recovery_begin (LogManager_new (encode_log rs)))))"
proof -
  let ?s = "recovery_begin (LogManager_new (encode_log rs))"
  have "recovery_scan ?s = Some (Inr (fold replay (map snd (map (Pair (3::u8)) rs)) ?s))"
    using assms
    by (intro recovery_scan_tagged [where pre = "[]"])
       (simp_all add: recovery_begin_def LogManager_new_def file_size_def
          encode_log_as_tagged [symmetric] update_tag_def)
  then show ?thesis by (simp add: scan_log_def comp_def)
qed

lemma replay_pending:
  "updatesPending (snd (replay r s)) =
     (case r of Checkpoint \<Rightarrow> [] | BeginFuzzy \<Rightarrow> updatesSinceLastCheckpoint (snd s)
      | EndFuzzy \<Rightarrow> [] | _ \<Rightarrow> updatesPending (snd s))"
  by (cases r; cases s) simp_all

lemma replay_since:
  "updatesSinceLastCheckpoint (snd (replay r s)) =
     (case r of Checkpoint \<Rightarrow> [] | BeginFuzzy \<Rightarrow> []
      | Update u \<Rightarrow> updatesSinceLastCheckpoint (snd s) @ [u]
      | _ \<Rightarrow> updatesSinceLastCheckpoint (snd s))"
  by (cases r; cases s) simp_all

lemma fold_replay_buffers_cong:
  assumes "updatesPending (snd s) = updatesPending (snd s')"
    and "updatesSinceLastCheckpoint (snd s) = updatesSinceLastCheckpoint (snd s')"
  shows "updatesPending (snd (fold replay rs s)) = updatesPending (snd (fold replay rs s'))
       \<and> updatesSinceLastCheckpoint (snd (fold replay rs s)) =
           updatesSinceLastCheckpoint (snd (fold replay rs s'))"
  using assms
proof (induction rs arbitrary: s s')
  case Nil
  then show ?case by simp
next
  case (Cons r rs)
  have "updatesPending (snd (replay r s)) = updatesPending (snd (replay r s'))"
    and "updatesSinceLastCheckpoint (snd (replay r s)) = updatesSinceLastCheckpoint (snd (replay r s'))"
    using Cons.prems by (cases r; simp add: replay_pending replay_since)+
  then show ?case using Cons.IH [of "replay r s" "replay r s'"] by simp
qed

lemma fold_replay_plain:
  assumes "\<forall>r \<in> set ms. \<not> checkpoint_like r"
  shows "updatesPending (snd (fold replay ms s)) = updatesPending (snd s)
       \<and> updatesSinceLastCheckpoint (snd (fold replay ms s)) =
           updatesSinceLastCheckpoint (snd s) @ updates_of ms"
  using assms
proof (induction ms arbitrary: s)
  case Nil
  then show ?case by simp
next
  case (Cons r ms)
  then show ?case
    by (cases r) (simp_all add: replay_pending replay_since)
qed

lemma length_encode_log_append: "length (encode_log (xs @ ys)) = length (encode_log xs) + length (encode_log ys)"
  by (simp add: encode_log_def)

lemma recovery_begin_buffers:
  "updatesPending (snd (recovery_begin lm)) = []"
  "updatesSinceLastCheckpoint (snd (recovery_begin lm)) = []"
  by (simp_all add: recovery_begin_def)

text \<open>
  Claim C1, as the code has it. On a BEGIN_FUZZY_CHECKPOINT record the scan first clears
  \<^verbatim>\<open>updatesPending\<close> and then moves \<^verbatim>\<open>updatesSinceLastCheckpoint\<close> into it, so the
  pending vector afterwards is exactly the updates seen since the last checkpoint and the
  since-checkpoint vector is empty. For a log with two BEGIN_FUZZY_CHECKPOINT records and
  no CHECKPOINT, BEGIN_FUZZY_CHECKPOINT or END_FUZZY_CHECKPOINT between them, the pending
  vector after the second holds the updates recorded between the two and nothing older.
\<close>

theorem begin_fuzzy_replaces_pending:
  assumes wf: "\<forall>r \<in> set (rs @ ms). wf_record r"
    and plain: "\<forall>r \<in> set ms. \<not> checkpoint_like r"
    and size: "length (encode_log (rs @ BeginFuzzy # ms @ [BeginFuzzy])) < 2 ^ 64"
  shows "pending_after_scan (encode_log (rs @ [BeginFuzzy])) = since_after_scan (encode_log rs)
       \<and> since_after_scan (encode_log (rs @ [BeginFuzzy])) = Some (Inr [])
       \<and> pending_after_scan (encode_log (rs @ BeginFuzzy # ms @ [BeginFuzzy])) = Some (Inr (updates_of ms))
       \<and> since_after_scan (encode_log (rs @ BeginFuzzy # ms @ [BeginFuzzy])) = Some (Inr [])"
proof -
  let ?init = "\<lambda>xs. recovery_begin (LogManager_new (encode_log xs))"
  have wf1: "\<forall>r \<in> set (rs @ [BeginFuzzy]). wf_record r" and wf0: "\<forall>r \<in> set rs. wf_record r"
    and wf2: "\<forall>r \<in> set (rs @ BeginFuzzy # ms @ [BeginFuzzy]). wf_record r"
    using wf by auto
  have s0: "length (encode_log rs) < 2 ^ 64" and s1: "length (encode_log (rs @ [BeginFuzzy])) < 2 ^ 64"
    using size by (simp_all add: encode_log_def)
  have sc0: "scan_log (encode_log rs) = Some (Inr (fold replay rs (?init rs)))"
    using wf0 s0 by (rule scan_log_encoded)
  have sc1: "scan_log (encode_log (rs @ [BeginFuzzy])) =
             Some (Inr (fold replay (rs @ [BeginFuzzy]) (?init (rs @ [BeginFuzzy]))))"
    using wf1 s1 by (rule scan_log_encoded)
  have sc2: "scan_log (encode_log (rs @ BeginFuzzy # ms @ [BeginFuzzy])) =
             Some (Inr (fold replay (rs @ BeginFuzzy # ms @ [BeginFuzzy])
                          (?init (rs @ BeginFuzzy # ms @ [BeginFuzzy]))))"
    using wf2 size by (rule scan_log_encoded)
  have c1: "updatesSinceLastCheckpoint (snd (fold replay rs (?init (rs @ [BeginFuzzy])))) =
            updatesSinceLastCheckpoint (snd (fold replay rs (?init rs)))"
    using fold_replay_buffers_cong [of "?init (rs @ [BeginFuzzy])" "?init rs" rs]
    by (simp add: recovery_begin_buffers)
  have p1: "pending_after_scan (encode_log (rs @ [BeginFuzzy])) = since_after_scan (encode_log rs)"
    by (simp add: pending_after_scan_def since_after_scan_def sc0 sc1 replay_pending c1)
  have p2: "since_after_scan (encode_log (rs @ [BeginFuzzy])) = Some (Inr [])"
    by (simp add: since_after_scan_def sc1 replay_since)
  let ?a = "replay BeginFuzzy (fold replay rs (?init (rs @ BeginFuzzy # ms @ [BeginFuzzy])))"
  have a: "updatesSinceLastCheckpoint (snd ?a) = []"
    by (simp add: replay_since)
  have m: "updatesSinceLastCheckpoint (snd (fold replay ms ?a)) = updates_of ms"
    using fold_replay_plain [OF plain, of ?a] a by simp
  have p3: "pending_after_scan (encode_log (rs @ BeginFuzzy # ms @ [BeginFuzzy])) = Some (Inr (updates_of ms))"
    by (simp add: pending_after_scan_def sc2 replay_pending m)
  have p4: "since_after_scan (encode_log (rs @ BeginFuzzy # ms @ [BeginFuzzy])) = Some (Inr [])"
    by (simp add: since_after_scan_def sc2 replay_since)
  show ?thesis using p1 p2 p3 p4 by simp
qed


theorem begin_fuzzy_replaces_pending_witness:
  "pending_after_scan (encode_log
      ([Update \<lparr>ui_txn_id = 1, ui_page_id = 2, ui_length = 2, ui_offset = 0,
                 ui_before_img = [0, 0], ui_after_img = [7, 7]\<rparr>] @ [BeginFuzzy]))
     = since_after_scan (encode_log
      [Update \<lparr>ui_txn_id = 1, ui_page_id = 2, ui_length = 2, ui_offset = 0,
                ui_before_img = [0, 0], ui_after_img = [7, 7]\<rparr>])
   \<and> since_after_scan (encode_log
      ([Update \<lparr>ui_txn_id = 1, ui_page_id = 2, ui_length = 2, ui_offset = 0,
                 ui_before_img = [0, 0], ui_after_img = [7, 7]\<rparr>] @ [BeginFuzzy])) = Some (Inr [])
   \<and> pending_after_scan (encode_log
      ([Update \<lparr>ui_txn_id = 1, ui_page_id = 2, ui_length = 2, ui_offset = 0,
                 ui_before_img = [0, 0], ui_after_img = [7, 7]\<rparr>]
       @ BeginFuzzy # [Begin 4, Update \<lparr>ui_txn_id = 4, ui_page_id = 2, ui_length = 1, ui_offset = 3,
                 ui_before_img = [0], ui_after_img = [9]\<rparr>] @ [BeginFuzzy]))
     = Some (Inr [\<lparr>ui_txn_id = 4, ui_page_id = 2, ui_length = 1, ui_offset = 3,
                    ui_before_img = [0], ui_after_img = [9]\<rparr>])
   \<and> since_after_scan (encode_log
      ([Update \<lparr>ui_txn_id = 1, ui_page_id = 2, ui_length = 2, ui_offset = 0,
                 ui_before_img = [0, 0], ui_after_img = [7, 7]\<rparr>]
       @ BeginFuzzy # [Begin 4, Update \<lparr>ui_txn_id = 4, ui_page_id = 2, ui_length = 1, ui_offset = 3,
                 ui_before_img = [0], ui_after_img = [9]\<rparr>] @ [BeginFuzzy])) = Some (Inr [])"
proof -
  let ?u0 = "\<lparr>ui_txn_id = 1, ui_page_id = 2, ui_length = 2, ui_offset = 0,
               ui_before_img = [0, 0], ui_after_img = [7, 7]\<rparr> :: UpdateInfo"
  let ?u1 = "\<lparr>ui_txn_id = 4, ui_page_id = 2, ui_length = 1, ui_offset = 3,
               ui_before_img = [0], ui_after_img = [9]\<rparr> :: UpdateInfo"
  have wf: "\<forall>r \<in> set ([Update ?u0] @ [Begin 4, Update ?u1]). wf_record r"
    by simp
  have plain: "\<forall>r \<in> set [Begin 4, Update ?u1]. \<not> checkpoint_like r"
    by simp
  have size: "length (encode_log ([Update ?u0] @ BeginFuzzy # [Begin 4, Update ?u1] @ [BeginFuzzy])) < 2 ^ 64"
    by (simp add: encode_log_def encode_record_def)
  show ?thesis
    using begin_fuzzy_replaces_pending [OF wf plain size] by simp
qed

text \<open>
  The log UPDATE, BEGIN_FUZZY_CHECKPOINT, BEGIN_FUZZY_CHECKPOINT: after the first marker
  the update is pending, after the second the pending vector is empty.
\<close>

theorem begin_fuzzy_drops_earlier_pending_counterexample:
  "encode_log [Update \<lparr>ui_txn_id = 1, ui_page_id = 2, ui_length = 2, ui_offset = 0,
                        ui_before_img = [0, 0], ui_after_img = [7, 7]\<rparr>, BeginFuzzy, BeginFuzzy]
     = [3, 1, 0, 0, 0, 0, 0, 0, 0, 2, 0, 0, 0, 0, 0, 0, 0, 2, 0, 0, 0, 0, 0, 0, 0,
        0, 0, 0, 0, 0, 0, 0, 0, 0, 0, 7, 7, 6, 6]
   \<and> pending_after_scan
       [3, 1, 0, 0, 0, 0, 0, 0, 0, 2, 0, 0, 0, 0, 0, 0, 0, 2, 0, 0, 0, 0, 0, 0, 0,
        0, 0, 0, 0, 0, 0, 0, 0, 0, 0, 7, 7, 6]
     = Some (Inr [\<lparr>ui_txn_id = 1, ui_page_id = 2, ui_length = 2, ui_offset = 0,
                    ui_before_img = [0, 0], ui_after_img = [7, 7]\<rparr>])
   \<and> pending_after_scan
       [3, 1, 0, 0, 0, 0, 0, 0, 0, 2, 0, 0, 0, 0, 0, 0, 0, 2, 0, 0, 0, 0, 0, 0, 0,
        0, 0, 0, 0, 0, 0, 0, 0, 0, 0, 7, 7, 6, 6]
     = Some (Inr [])"
  by code_simp

section \<open>Checkpoints\<close>

lemma merge_pending_since:
  "updatesSinceLastCheckpoint (merge_pending st) =
     (if updatesPending st \<noteq> [] then updatesPending st @ updatesSinceLastCheckpoint st
      else updatesSinceLastCheckpoint st)"
  by (simp add: merge_pending_def)

text \<open>
  Claim C5. A CHECKPOINT record empties both \<^verbatim>\<open>updatesSinceLastCheckpoint\<close> and
  \<^verbatim>\<open>updatesPending\<close>, and the list of redo candidates at the end of the scan is the one
  that the records after the CHECKPOINT give on their own: no update that precedes the
  CHECKPOINT takes part in it.
\<close>

theorem checkpoint_discards_earlier_updates:
  assumes wf: "\<forall>r \<in> set (rs1 @ rs2). wf_record r"
    and size: "length (encode_log (rs1 @ Checkpoint # rs2)) < 2 ^ 64"
  shows "pending_after_scan (encode_log (rs1 @ [Checkpoint])) = Some (Inr [])
       \<and> since_after_scan (encode_log (rs1 @ [Checkpoint])) = Some (Inr [])
       \<and> redo_candidates (encode_log (rs1 @ Checkpoint # rs2)) = redo_candidates (encode_log rs2)"
proof -
  let ?init = "\<lambda>xs. recovery_begin (LogManager_new (encode_log xs))"
  have wf1: "\<forall>r \<in> set (rs1 @ [Checkpoint]). wf_record r" and wf2: "\<forall>r \<in> set rs2. wf_record r"
    and wf3: "\<forall>r \<in> set (rs1 @ Checkpoint # rs2). wf_record r"
    using wf by auto
  have s1: "length (encode_log (rs1 @ [Checkpoint])) < 2 ^ 64" and s2: "length (encode_log rs2) < 2 ^ 64"
    using size by (simp_all add: encode_log_def)
  have sc1: "scan_log (encode_log (rs1 @ [Checkpoint])) =
             Some (Inr (fold replay (rs1 @ [Checkpoint]) (?init (rs1 @ [Checkpoint]))))"
    using wf1 s1 by (rule scan_log_encoded)
  have sc2: "scan_log (encode_log rs2) = Some (Inr (fold replay rs2 (?init rs2)))"
    using wf2 s2 by (rule scan_log_encoded)
  have sc3: "scan_log (encode_log (rs1 @ Checkpoint # rs2)) =
             Some (Inr (fold replay (rs1 @ Checkpoint # rs2) (?init (rs1 @ Checkpoint # rs2))))"
    using wf3 size by (rule scan_log_encoded)
  have p1: "pending_after_scan (encode_log (rs1 @ [Checkpoint])) = Some (Inr [])"
    by (simp add: pending_after_scan_def sc1 replay_pending)
  have p2: "since_after_scan (encode_log (rs1 @ [Checkpoint])) = Some (Inr [])"
    by (simp add: since_after_scan_def sc1 replay_since)
  let ?a = "replay Checkpoint (fold replay rs1 (?init (rs1 @ Checkpoint # rs2)))"
  have "updatesPending (snd ?a) = updatesPending (snd (?init rs2))"
    and "updatesSinceLastCheckpoint (snd ?a) = updatesSinceLastCheckpoint (snd (?init rs2))"
    by (simp_all add: replay_pending replay_since recovery_begin_buffers)
  then have c: "updatesPending (snd (fold replay rs2 ?a)) = updatesPending (snd (fold replay rs2 (?init rs2)))
       \<and> updatesSinceLastCheckpoint (snd (fold replay rs2 ?a)) =
           updatesSinceLastCheckpoint (snd (fold replay rs2 (?init rs2)))"
    by (rule fold_replay_buffers_cong)
  have p3: "redo_candidates (encode_log (rs1 @ Checkpoint # rs2)) = redo_candidates (encode_log rs2)"
    using c by (simp add: redo_candidates_def sc2 sc3 merge_pending_since)
  show ?thesis using p1 p2 p3 by simp
qed

theorem checkpoint_discards_earlier_updates_witness:
  "pending_after_scan (encode_log
      ([Begin 1, Update \<lparr>ui_txn_id = 1, ui_page_id = 2, ui_length = 2, ui_offset = 0,
                 ui_before_img = [0, 0], ui_after_img = [7, 7]\<rparr>, BeginFuzzy] @ [Checkpoint])) = Some (Inr [])
   \<and> since_after_scan (encode_log
      ([Begin 1, Update \<lparr>ui_txn_id = 1, ui_page_id = 2, ui_length = 2, ui_offset = 0,
                 ui_before_img = [0, 0], ui_after_img = [7, 7]\<rparr>, BeginFuzzy] @ [Checkpoint])) = Some (Inr [])
   \<and> redo_candidates (encode_log
      ([Begin 1, Update \<lparr>ui_txn_id = 1, ui_page_id = 2, ui_length = 2, ui_offset = 0,
                 ui_before_img = [0, 0], ui_after_img = [7, 7]\<rparr>, BeginFuzzy]
       @ Checkpoint # [Update \<lparr>ui_txn_id = 1, ui_page_id = 2, ui_length = 1, ui_offset = 3,
                 ui_before_img = [0], ui_after_img = [9]\<rparr>, Abort 1]))
     = redo_candidates (encode_log
         [Update \<lparr>ui_txn_id = 1, ui_page_id = 2, ui_length = 1, ui_offset = 3,
                 ui_before_img = [0], ui_after_img = [9]\<rparr>, Abort 1])
   \<and> redo_candidates (encode_log
         [Update \<lparr>ui_txn_id = 1, ui_page_id = 2, ui_length = 1, ui_offset = 3,
                 ui_before_img = [0], ui_after_img = [9]\<rparr>, Abort 1])
     = Some (Inr [\<lparr>ui_txn_id = 1, ui_page_id = 2, ui_length = 1, ui_offset = 3,
                 ui_before_img = [0], ui_after_img = [9]\<rparr>])"
proof -
  let ?u0 = "\<lparr>ui_txn_id = 1, ui_page_id = 2, ui_length = 2, ui_offset = 0,
               ui_before_img = [0, 0], ui_after_img = [7, 7]\<rparr> :: UpdateInfo"
  let ?u1 = "\<lparr>ui_txn_id = 1, ui_page_id = 2, ui_length = 1, ui_offset = 3,
               ui_before_img = [0], ui_after_img = [9]\<rparr> :: UpdateInfo"
  have wf: "\<forall>r \<in> set ([Begin 1, Update ?u0, BeginFuzzy] @ [Update ?u1, Abort 1]). wf_record r"
    by simp
  have size: "length (encode_log ([Begin 1, Update ?u0, BeginFuzzy] @ Checkpoint # [Update ?u1, Abort 1])) < 2 ^ 64"
    by (simp add: encode_log_def encode_record_def)
  have ev: "redo_candidates (encode_log [Update ?u1, Abort 1]) = Some (Inr [?u1])"
    by code_simp
  show ?thesis
    using checkpoint_discards_earlier_updates [OF wf size] ev by simp
qed

section \<open>Tags outside the enumeration\<close>


lemma replay_total:
  "get_total_log_records (fst (replay r s)) = get_total_log_records (fst s) + 1"
  by (cases r; cases s) (simp_all add: get_total_log_records_def count_incr_def)

lemma fold_replay_total:
  "get_total_log_records (fst (fold replay rs s)) = get_total_log_records (fst s) + of_nat (length rs)"
  by (induction rs arbitrary: s) (simp_all add: replay_total)

lemma recovery_begin_total: "get_total_log_records (fst (recovery_begin lm)) = 0"
  by (simp add: recovery_begin_def get_total_log_records_def)



lemma length_encode_tagged: "wf_record r \<Longrightarrow> length (encode_tagged b r) = length (encode_tagged b' r)"
  by (cases r) simp_all


















section \<open>Rollback on logs written record by record\<close>

lemma captured_as_filter:
  "captured t rs = filter (\<lambda>u. ui_txn_id u = t) (updates_of (takeWhile (\<lambda>r. r \<noteq> Abort t) rs))"
proof (induction rs)
  case Nil
  then show ?case by simp
next
  case (Cons r rs)
  then show ?case by (cases r) simp_all
qed

lemma err_bind_Inl: "err_bind (Inl e) f = Inl e"
  by (simp add: err_bind_def)

lemma err_bind_Inr: "err_bind (Inr x) f = f x"
  by (simp add: err_bind_def)

lemma fold_write_Inl:
  "fold (\<lambda>u r. err_bind r (g u)) us (Inl e) = Inl e"
  by (induction us) (simp_all add: err_bind_def)

lemma undo_updates_as_fold:
  "undo_updates us bm =
     fold (\<lambda>u r. err_bind r (write_page (ui_page_id u) (ui_offset u) (ui_length u) (ui_before_img u)))
       us (Inr bm)"
proof (induction us arbitrary: bm)
  case Nil
  then show ?case by simp
next
  case (Cons u us)
  show ?case
  proof (cases "write_page (ui_page_id u) (ui_offset u) (ui_length u) (ui_before_img u) bm")
    case (Inl e)
    then show ?thesis by (simp add: err_bind_Inl err_bind_Inr fold_write_Inl)
  next
    case (Inr bm1)
    then show ?thesis using Cons [of bm1] by (simp add: err_bind_Inl err_bind_Inr)
  qed
qed

lemma rollback_scan_encoded:
  assumes logf: "log_file_m lm = encode_log rs"
    and cur: "current_offset_m lm = file_size (log_file_m lm)"
    and wf: "\<forall>r \<in> set rs. wf_record r"
    and size: "length (encode_log rs) < 2 ^ 64"
  shows "\<exists>off. rollback_scan t lm (0, []) = Some (Inr (off, captured t rs))"
proof -
  have "\<exists>off. rollback_scan t lm (of_nat (length ([] :: u8 list)), []) =
          Some (Inr (off, [] @ captured t (map snd (map (Pair (3::u8)) rs))))"
    using assms
    by (intro rollback_scan_tagged)
       (simp_all add: file_size_def encode_log_as_tagged [symmetric] update_tag_def)
  then show ?thesis by (simp add: comp_def)
qed

text \<open>
  Claim C4. For a transaction that has an entry in \<^verbatim>\<open>txn_id_to_first_log_record\<close>,
  \<^verbatim>\<open>rollback_txn\<close> on a log written record by record scans from offset 0, captures
  exactly the UPDATE records of that transaction that stand before its first ABORT record
  (every other record is skipped), and then goes through the captured updates in reverse
  order of appearance, copying each before-image into its page at the record's offset
  for the record's length and unfixing the page dirty. The log manager is not changed.
\<close>

theorem rollback_txn_applies_before_images_in_reverse:
  assumes live: "map_find t (txn_id_to_first_log_record lm) \<noteq> None"
    and logf: "log_file_m lm = encode_log rs"
    and cur: "current_offset_m lm = file_size (log_file_m lm)"
    and wf: "\<forall>r \<in> set rs. wf_record r"
    and size: "length (encode_log rs) < 2 ^ 64"
  shows "rollback_txn t lm bm =
         Some (err_bind
           (fold (\<lambda>u r. err_bind r
                    (write_page (ui_page_id u) (ui_offset u) (ui_length u) (ui_before_img u)))
              (rev (filter (\<lambda>u. ui_txn_id u = t)
                     (updates_of (takeWhile (\<lambda>r. r \<noteq> Abort t) rs))))
              (Inr bm))
           (\<lambda>bm'. Inr (lm, bm')))"
proof -
  obtain off where "rollback_scan t lm (0, []) = Some (Inr (off, captured t rs))"
    using rollback_scan_encoded [OF logf cur wf size] by blast
  then show ?thesis
    using live
    by (auto simp add: rollback_txn_def undo_updates_as_fold captured_as_filter)
qed


theorem rollback_txn_applies_before_images_in_reverse_witness:
  "map_find 1 (txn_id_to_first_log_record
      ((LogManager_new (encode_log
          [Begin 1,
           Update \<lparr>ui_txn_id = 1, ui_page_id = 2, ui_length = 2, ui_offset = 0,
                    ui_before_img = [1, 1], ui_after_img = [7, 7]\<rparr>,
           Begin 4,
           Update \<lparr>ui_txn_id = 4, ui_page_id = 2, ui_length = 1, ui_offset = 5,
                    ui_before_img = [0], ui_after_img = [9]\<rparr>,
           Update \<lparr>ui_txn_id = 1, ui_page_id = 2, ui_length = 2, ui_offset = 1,
                    ui_before_img = [7, 0], ui_after_img = [8, 8]\<rparr>,
           Abort 1,
           Update \<lparr>ui_txn_id = 1, ui_page_id = 2, ui_length = 1, ui_offset = 6,
                    ui_before_img = [3], ui_after_img = [4]\<rparr>]))
        \<lparr>current_offset_m := 171, txn_id_to_first_log_record := [(1, 0), (4, 2)]\<rparr>)) \<noteq> None
   \<and> rollback_txn 1
        ((LogManager_new (encode_log
          [Begin 1,
           Update \<lparr>ui_txn_id = 1, ui_page_id = 2, ui_length = 2, ui_offset = 0,
                    ui_before_img = [1, 1], ui_after_img = [7, 7]\<rparr>,
           Begin 4,
           Update \<lparr>ui_txn_id = 4, ui_page_id = 2, ui_length = 1, ui_offset = 5,
                    ui_before_img = [0], ui_after_img = [9]\<rparr>,
           Update \<lparr>ui_txn_id = 1, ui_page_id = 2, ui_length = 2, ui_offset = 1,
                    ui_before_img = [7, 0], ui_after_img = [8, 8]\<rparr>,
           Abort 1,
           Update \<lparr>ui_txn_id = 1, ui_page_id = 2, ui_length = 1, ui_offset = 6,
                    ui_before_img = [3], ui_after_img = [4]\<rparr>]))
        \<lparr>current_offset_m := 171, txn_id_to_first_log_record := [(1, 0), (4, 2)]\<rparr>)
        (blank_pool 8)
     = Some (Inr
        ((LogManager_new (encode_log
          [Begin 1,
           Update \<lparr>ui_txn_id = 1, ui_page_id = 2, ui_length = 2, ui_offset = 0,
                    ui_before_img = [1, 1], ui_after_img = [7, 7]\<rparr>,
           Begin 4,
           Update \<lparr>ui_txn_id = 4, ui_page_id = 2, ui_length = 1, ui_offset = 5,
                    ui_before_img = [0], ui_after_img = [9]\<rparr>,
           Update \<lparr>ui_txn_id = 1, ui_page_id = 2, ui_length = 2, ui_offset = 1,
                    ui_before_img = [7, 0], ui_after_img = [8, 8]\<rparr>,
           Abort 1,
           Update \<lparr>ui_txn_id = 1, ui_page_id = 2, ui_length = 1, ui_offset = 6,
                    ui_before_img = [3], ui_after_img = [4]\<rparr>]))
          \<lparr>current_offset_m := 171, txn_id_to_first_log_record := [(1, 0), (4, 2)]\<rparr>,
         (blank_pool 8)\<lparr>bm_pages := (bm_pages (blank_pool 8))(2 := [1, 1, 0, 0, 0, 0, 0, 0]),
                         bm_dirty := [2]\<rparr>))"
proof -
  let ?rs = "[Begin 1,
           Update \<lparr>ui_txn_id = 1, ui_page_id = 2, ui_length = 2, ui_offset = 0,
                    ui_before_img = [1, 1], ui_after_img = [7, 7]\<rparr>,
           Begin 4,
           Update \<lparr>ui_txn_id = 4, ui_page_id = 2, ui_length = 1, ui_offset = 5,
                    ui_before_img = [0], ui_after_img = [9]\<rparr>,
           Update \<lparr>ui_txn_id = 1, ui_page_id = 2, ui_length = 2, ui_offset = 1,
                    ui_before_img = [7, 0], ui_after_img = [8, 8]\<rparr>,
           Abort 1,
           Update \<lparr>ui_txn_id = 1, ui_page_id = 2, ui_length = 1, ui_offset = 6,
                    ui_before_img = [3], ui_after_img = [4]\<rparr>]"
  let ?lm = "(LogManager_new (encode_log ?rs))
               \<lparr>current_offset_m := 171, txn_id_to_first_log_record := [(1, 0), (4, 2)]\<rparr>"
  have live: "map_find 1 (txn_id_to_first_log_record ?lm) \<noteq> None"
    by (simp add: map_find_def)
  have logf: "log_file_m ?lm = encode_log ?rs"
    by (simp add: LogManager_new_def)
  have cur: "current_offset_m ?lm = file_size (log_file_m ?lm)"
    by (simp add: LogManager_new_def file_size_def encode_log_def encode_record_def)
  have wf: "\<forall>r \<in> set ?rs. wf_record r"
    by simp
  have size: "length (encode_log ?rs) < 2 ^ 64"
    by (simp add: encode_log_def encode_record_def)
  have pool: "blank_pool 8 =
      \<lparr>bm_pages = (\<lambda>p. [0, 0, 0, 0, 0, 0, 0, 0]), bm_disk = (\<lambda>p. [0, 0, 0, 0, 0, 0, 0, 0]), bm_dirty = []\<rparr>"
    by (simp add: blank_pool_def eval_nat_numeral)
  have sel: "rev (filter (\<lambda>u. ui_txn_id u = 1) (updates_of (takeWhile (\<lambda>r. r \<noteq> Abort 1) ?rs))) =
      [\<lparr>ui_txn_id = 1, ui_page_id = 2, ui_length = 2, ui_offset = 1,
         ui_before_img = [7, 0], ui_after_img = [8, 8]\<rparr>,
       \<lparr>ui_txn_id = 1, ui_page_id = 2, ui_length = 2, ui_offset = 0,
         ui_before_img = [1, 1], ui_after_img = [7, 7]\<rparr>]"
    by simp
  have "rollback_txn 1 ?lm (blank_pool 8) =
        Some (Inr (?lm, (blank_pool 8)\<lparr>bm_pages := (bm_pages (blank_pool 8))(2 := [1, 1, 0, 0, 0, 0, 0, 0]),
                                         bm_dirty := [2]\<rparr>))"
    apply (subst rollback_txn_applies_before_images_in_reverse [OF live logf cur wf size])
    apply (simp only: sel)
    apply (simp add: pool err_bind_def write_page_def mark_dirty_def Let_def)
    done
  then show ?thesis using live by simp
qed

section \<open>Rollback twice\<close>

lemma write_page_Inr:
  assumes "write_page pid off len img bm = Inr bm'"
  shows "unat off + unat len \<le> length (bm_pages bm pid)" and "unat len \<le> length img"
    and "bm_pages bm' = (bm_pages bm)(pid := take (unat off) (bm_pages bm pid) @ take (unat len) img
                                        @ drop (unat off + unat len) (bm_pages bm pid))"
    and "bm_disk bm' = bm_disk bm" and "bm_dirty bm' = mark_dirty pid (bm_dirty bm)"
  using assms by (auto simp add: write_page_def Let_def split: if_splits)

lemma patch_length:
  "a + l \<le> length page \<Longrightarrow> l \<le> length img \<Longrightarrow>
   length (take a page @ take l img @ drop (a + l) page) = length page"
  by simp

lemma patch_nth:
  assumes "a + l \<le> length page" and "l \<le> length img" and "i < length page"
  shows "(take a page @ take l img @ drop (a + l) page) ! i =
         (if a \<le> i \<and> i < a + l then img ! (i - a) else page ! i)"
proof -
  consider "i < a" | "a \<le> i" "i < a + l" | "a + l \<le> i" by linarith
  then show ?thesis
  proof cases
    case 1
    then show ?thesis using assms by (simp add: nth_append)
  next
    case 2
    then have "i - a < l" by linarith
    then show ?thesis using 2 assms by (simp add: nth_append)
  next
    case 3
    then have "\<not> i - a < l" and "\<not> i < a" and "a + l + (i - a - l) = i" by linarith+
    then show ?thesis using 3 assms by (simp add: nth_append)
  qed
qed

lemma write_page_cells:
  assumes "write_page (ui_page_id u) (ui_offset u) (ui_length u) (ui_before_img u) bm = Inr bm'"
  shows "length (bm_pages bm' p) = length (bm_pages bm p)"
    and "i < length (bm_pages bm p) \<Longrightarrow>
         bm_pages bm' p ! i =
           (if covers u p i then ui_before_img u ! (i - unat (ui_offset u)) else bm_pages bm p ! i)"
proof -
  note w = write_page_Inr [OF assms]
  show "length (bm_pages bm' p) = length (bm_pages bm p)"
    using w(1,2) by (simp add: w(3))
  show "bm_pages bm' p ! i =
           (if covers u p i then ui_before_img u ! (i - unat (ui_offset u)) else bm_pages bm p ! i)"
    if "i < length (bm_pages bm p)"
  proof (cases "p = ui_page_id u")
    case True
    then show ?thesis
      using w(1,2) that by (simp add: w(3) covers_def patch_nth)
  next
    case False
    then show ?thesis by (auto simp add: w(3) covers_def)
  qed
qed


lemma undo_updates_cells:
  assumes "undo_updates us bm = Inr bm'"
  shows "(\<forall>p. length (bm_pages bm' p) = length (bm_pages bm p))
       \<and> (\<forall>p i. i < length (bm_pages bm p) \<longrightarrow>
             bm_pages bm' p ! i = (case overlay us p i of Some v \<Rightarrow> v | None \<Rightarrow> bm_pages bm p ! i))
       \<and> bm_disk bm' = bm_disk bm
       \<and> bm_dirty bm' = fold mark_dirty (map ui_page_id us) (bm_dirty bm)"
  using assms
proof (induction us arbitrary: bm)
  case Nil
  then show ?case by simp
next
  case (Cons u us)
  obtain bm1 where w: "write_page (ui_page_id u) (ui_offset u) (ui_length u) (ui_before_img u) bm = Inr bm1"
    and rest: "undo_updates us bm1 = Inr bm'"
    using Cons.prems by (cases "write_page (ui_page_id u) (ui_offset u) (ui_length u) (ui_before_img u) bm")
      (simp_all add: err_bind_Inl err_bind_Inr)
  note ih = Cons.IH [OF rest]
  note len1 = write_page_cells(1) [OF w] and nth1 = write_page_cells(2) [OF w]
  have "length (bm_pages bm' p) = length (bm_pages bm p)" for p
    using ih len1 by simp
  moreover have "bm_pages bm' p ! i = (case overlay (u # us) p i of Some v \<Rightarrow> v | None \<Rightarrow> bm_pages bm p ! i)"
    if "i < length (bm_pages bm p)" for p i
  proof -
    have "i < length (bm_pages bm1 p)" using that len1 by simp
    then have "bm_pages bm' p ! i = (case overlay us p i of Some v \<Rightarrow> v | None \<Rightarrow> bm_pages bm1 p ! i)"
      using ih by blast
    then show ?thesis using nth1 [OF that] by (simp split: option.splits)
  qed
  moreover have "bm_disk bm' = bm_disk bm"
    using ih write_page_Inr(4) [OF w] by simp
  moreover have "bm_dirty bm' = fold mark_dirty (map ui_page_id (u # us)) (bm_dirty bm)"
    using ih write_page_Inr(5) [OF w] by simp
  ultimately show ?case by blast
qed

lemma undo_updates_succeeds:
  assumes "undo_updates us bm = Inr bm'"
    and "\<forall>p. length (bm_pages x p) = length (bm_pages bm p)"
  shows "\<exists>x'. undo_updates us x = Inr x'"
  using assms
proof (induction us arbitrary: bm x)
  case Nil
  then show ?case by simp
next
  case (Cons u us)
  obtain bm1 where w: "write_page (ui_page_id u) (ui_offset u) (ui_length u) (ui_before_img u) bm = Inr bm1"
    and rest: "undo_updates us bm1 = Inr bm'"
    using Cons.prems(1) by (cases "write_page (ui_page_id u) (ui_offset u) (ui_length u) (ui_before_img u) bm")
      (simp_all add: err_bind_Inl err_bind_Inr)
  have "unat (ui_offset u) + unat (ui_length u) \<le> length (bm_pages x (ui_page_id u))"
    and "unat (ui_length u) \<le> length (ui_before_img u)"
    using write_page_Inr(1,2) [OF w] Cons.prems(2) by simp_all
  then obtain x1 where wx: "write_page (ui_page_id u) (ui_offset u) (ui_length u) (ui_before_img u) x = Inr x1"
    by (simp add: write_page_def Let_def)
  have "\<forall>p. length (bm_pages x1 p) = length (bm_pages bm1 p)"
    using write_page_cells(1) [OF w] write_page_cells(1) [OF wx] Cons.prems(2) by simp
  then obtain x' where "undo_updates us x1 = Inr x'"
    using Cons.IH [OF rest] by blast
  then show ?case using wx by (simp add: err_bind_Inr)
qed

lemma set_fold_mark_dirty: "set (fold mark_dirty ps d) = set ps \<union> set d"
  by (induction ps arbitrary: d) (auto simp add: mark_dirty_def)

lemma fold_mark_dirty_absorb: "set ps \<subseteq> set d \<Longrightarrow> fold mark_dirty ps d = d"
  by (induction ps arbitrary: d) (auto simp add: mark_dirty_def)

lemma undo_updates_idempotent:
  assumes "undo_updates us bm = Inr bm'"
  shows "undo_updates us bm' = Inr bm'"
proof -
  note a = undo_updates_cells [OF assms]
  have "\<forall>p. length (bm_pages bm' p) = length (bm_pages bm p)" using a by blast
  then obtain x where x: "undo_updates us bm' = Inr x"
    using undo_updates_succeeds [OF assms] by blast
  note b = undo_updates_cells [OF x]
  have "bm_pages x p = bm_pages bm' p" for p
  proof (rule nth_equalityI)
    show "length (bm_pages x p) = length (bm_pages bm' p)" using b by blast
  next
    fix i assume "i < length (bm_pages x p)"
    then have i: "i < length (bm_pages bm' p)" using b by simp
    then have i0: "i < length (bm_pages bm p)" using a by simp
    have "bm_pages x p ! i = (case overlay us p i of Some v \<Rightarrow> v | None \<Rightarrow> bm_pages bm' p ! i)"
      using b i by blast
    moreover have "bm_pages bm' p ! i = (case overlay us p i of Some v \<Rightarrow> v | None \<Rightarrow> bm_pages bm p ! i)"
      using a i0 by blast
    ultimately show "bm_pages x p ! i = bm_pages bm' p ! i"
      by (simp split: option.splits)
  qed
  then have pages: "bm_pages x = bm_pages bm'" by (rule ext)
  have disk: "bm_disk x = bm_disk bm'" using b by blast
  have "set (map ui_page_id us) \<subseteq> set (bm_dirty bm')"
    using a by (simp add: set_fold_mark_dirty)
  then have dirty: "bm_dirty x = bm_dirty bm'"
    using b by (simp add: fold_mark_dirty_absorb)
  have "x = bm'" using pages disk dirty by simp
  then show ?thesis using x by simp
qed

text \<open>
  Claim C7. Calling \<^verbatim>\<open>rollback_txn\<close> for the same transaction twice in succession, with
  nothing appended in between, gives the result of calling it once: the same page contents
  and dirty pages, the same log manager, and the same failure when the first call fails.
  This holds for every state of the log manager and every content of the log file.
\<close>

theorem rollback_txn_twice_is_once:
  "rollback_twice t lm bm = rollback_txn t lm bm"
proof (cases "map_find t (txn_id_to_first_log_record lm)")
  case None
  then show ?thesis by (simp add: rollback_twice_def rollback_txn_def)
next
  case (Some it)
  show ?thesis
  proof (cases "rollback_scan t lm (0, [])")
    case None
    then show ?thesis using Some by (simp add: rollback_twice_def rollback_txn_def)
  next
    case scan: (Some r)
    show ?thesis
    proof (cases r)
      case (Inl e)
      then show ?thesis using Some scan by (simp add: rollback_twice_def rollback_txn_def)
    next
      case (Inr st)
      show ?thesis
      proof (cases "undo_updates (rev (snd st)) bm")
        case (Inl e)
        then show ?thesis using Some scan Inr
          by (simp add: rollback_twice_def rollback_txn_def err_bind_Inl)
      next
        case undo: (Inr bm')
        have "undo_updates (rev (snd st)) bm' = Inr bm'"
          using undo by (rule undo_updates_idempotent)
        then show ?thesis using Some scan Inr undo
          by (simp add: rollback_twice_def rollback_txn_def err_bind_Inr)
      qed
    qed
  qed
qed


theorem rollback_txn_twice_is_once_witness:
  "rollback_twice 1
     ((LogManager_new (encode_log
         [Begin 1,
          Update \<lparr>ui_txn_id = 1, ui_page_id = 2, ui_length = 2, ui_offset = 0,
                   ui_before_img = [1, 1], ui_after_img = [7, 7]\<rparr>,
          Update \<lparr>ui_txn_id = 1, ui_page_id = 2, ui_length = 2, ui_offset = 1,
                   ui_before_img = [7, 0], ui_after_img = [8, 8]\<rparr>]))
       \<lparr>current_offset_m := 83, txn_id_to_first_log_record := [(1, 0)]\<rparr>)
     (blank_pool 8)
   = rollback_txn 1
     ((LogManager_new (encode_log
         [Begin 1,
          Update \<lparr>ui_txn_id = 1, ui_page_id = 2, ui_length = 2, ui_offset = 0,
                   ui_before_img = [1, 1], ui_after_img = [7, 7]\<rparr>,
          Update \<lparr>ui_txn_id = 1, ui_page_id = 2, ui_length = 2, ui_offset = 1,
                   ui_before_img = [7, 0], ui_after_img = [8, 8]\<rparr>]))
       \<lparr>current_offset_m := 83, txn_id_to_first_log_record := [(1, 0)]\<rparr>)
     (blank_pool 8)"
  by (rule rollback_txn_twice_is_once)

section \<open>What an append writes\<close>





















lemma err_bind_Inr_iff: "err_bind m f = Inr y \<longleftrightarrow> (\<exists>x. m = Inr x \<and> f x = Inr y)"
  by (cases m) (simp_all add: err_bind_def)


lemma rollback_txn_frame: "rollback_txn t lm bm = Some (Inr (lm', bm')) \<Longrightarrow> lm' = lm"
  by (auto simp add: rollback_txn_def err_bind_Inr_iff split: option.splits sum.splits)

lemma rollback_each_frame: "rollback_each ts lm bm = Some (Inr (lm', bm')) \<Longrightarrow> lm' = lm"
proof (induction ts arbitrary: lm bm)
  case Nil
  then show ?case by simp
next
  case (Cons t ts)
  then show ?case
    by (auto split: option.splits sum.splits dest: rollback_txn_frame)
qed



lemma apply_op_count:
  assumes "apply_op op (lm, bm) = Some (Inr (lm', bm'))"
  shows "log_record_type_to_count lm' =
         (log_record_type_to_count lm)(kind_of_op op := log_record_type_to_count lm (kind_of_op op) + 1)"
proof (cases op)
  case (OpAbort t)
  then show ?thesis using assms
    by (auto simp add: log_abort_def Let_def count_incr_def split: option.splits sum.splits
        dest!: rollback_txn_frame)
next
  case (OpCommit t)
  then show ?thesis using assms
    by (auto simp add: log_commit_def Let_def count_incr_def err_bind_Inr_iff)
next
  case (OpUpdate t p len off b a)
  then show ?thesis using assms
    by (auto simp add: log_update_def Let_def count_incr_def err_bind_Inr_iff)
next
  case (OpBegin t)
  then show ?thesis using assms
    by (auto simp add: log_txn_begin_def Let_def count_incr_def err_bind_Inr_iff)
next
  case OpCheckpoint
  then show ?thesis using assms
    by (auto simp add: log_checkpoint_def Let_def count_incr_def err_bind_Inr_iff)
next
  case OpFuzzyBegin
  then show ?thesis using assms
    by (auto simp add: log_fuzzy_checkpoint_begin_def Let_def count_incr_def err_bind_Inr_iff)
next
  case OpFuzzyEnd
  then show ?thesis using assms
    by (auto simp add: log_fuzzy_checkpoint_end_def Let_def count_incr_def err_bind_Inr_iff)
qed

lemma kind_of_op_valid: "kind_of_op op \<noteq> INVALID_RECORD_TYPE"
  by (cases op) simp_all

lemma total_after_increment:
  assumes "log_record_type_to_count lm' =
           (log_record_type_to_count lm)(k := log_record_type_to_count lm k + 1)"
    and "k \<noteq> INVALID_RECORD_TYPE"
  shows "get_total_log_records lm' = get_total_log_records lm + 1"
  using assms by (cases k) (simp_all add: get_total_log_records_def)

lemma run_ops_total:
  "run_ops ops s = Some (Inr s') \<Longrightarrow>
   get_total_log_records (fst s') = get_total_log_records (fst s) + of_nat (length ops)"
proof (induction ops arbitrary: s)
  case Nil
  then show ?case by simp
next
  case (Cons op ops)
  obtain lm bm where s: "s = (lm, bm)" by (cases s)
  obtain lm1 bm1 where step: "apply_op op (lm, bm) = Some (Inr (lm1, bm1))"
    and rest: "run_ops ops (lm1, bm1) = Some (Inr s')"
    using Cons.prems s by (auto split: option.splits sum.splits)
  have "get_total_log_records lm1 = get_total_log_records lm + 1"
    using apply_op_count [OF step] kind_of_op_valid by (rule total_after_increment)
  then show ?case using Cons.IH [OF rest] s by simp
qed




section \<open>Counting records\<close>

lemma recovery_scan_encoded:
  assumes "log_file_m lm = encode_log rs" and "\<forall>r \<in> set rs. wf_record r"
    and "length (encode_log rs) < 2 ^ 64"
  shows "recovery_scan (recovery_begin lm) = Some (Inr (fold replay rs (recovery_begin lm)))"
proof -
  have "recovery_scan (recovery_begin lm) =
        Some (Inr (fold replay (map snd (map (Pair (3::u8)) rs)) (recovery_begin lm)))"
    using assms
    by (intro recovery_scan_tagged [where pre = "[]"])
       (simp_all add: recovery_begin_def file_size_def encode_log_as_tagged [symmetric] update_tag_def)
  then show ?thesis by (simp add: comp_def)
qed

lemma recovery_keeps_scan_state:
  assumes "recovery lm bm = Some (Inr (lm', bm'))"
  shows "\<exists>st. recovery_scan (recovery_begin lm) = Some (Inr (lm', st))"
  using assms
  by (auto simp add: recovery_def Let_def split: option.splits sum.splits prod.splits
      dest!: rollback_each_frame)

lemma length_le_encode_log: "length rs \<le> length (encode_log rs)"
proof (induction rs)
  case Nil
  then show ?case by simp
next
  case (Cons r rs)
  have "1 \<le> length (encode_record r)"
    unfolding encode_record_def using length_encode_tagged_pos [of "tag_of UPDATE_RECORD" r]
    by linarith
  then show ?case using Cons by (simp add: encode_log_def)
qed

lemma recovery_total:
  assumes "log_file_m lm = encode_log rs" and "\<forall>r \<in> set rs. wf_record r"
    and "length (encode_log rs) < 2 ^ 64"
    and "recovery lm bm = Some (Inr (lm', bm'))"
  shows "get_total_log_records lm' = of_nat (length rs)"
proof -
  obtain st where "recovery_scan (recovery_begin lm) = Some (Inr (lm', st))"
    using recovery_keeps_scan_state [OF assms(4)] by blast
  then have "fold replay rs (recovery_begin lm) = (lm', st)"
    using recovery_scan_encoded [OF assms(1,2,3)] by simp
  then have "get_total_log_records lm' = get_total_log_records (fst (fold replay rs (recovery_begin lm)))"
    by simp
  then show ?thesis by (simp add: fold_replay_total recovery_begin_total)
qed

lemma fold_replay_frame:
  "log_file_m (fst (fold replay rs s)) = log_file_m (fst s)"
  "current_offset_m (fst (fold replay rs s)) = current_offset_m (fst s)"
  by (induction rs arbitrary: s) (simp_all add: replay_frame)

lemma rollback_txn_returns:
  assumes "log_file_m lm = encode_log rs" and "current_offset_m lm = file_size (log_file_m lm)"
    and "\<forall>r \<in> set rs. wf_record r" and "length (encode_log rs) < 2 ^ 64"
  shows "\<exists>r. rollback_txn t lm bm = Some r"
proof -
  obtain off where "rollback_scan t lm (0, []) = Some (Inr (off, captured t rs))"
    using rollback_scan_encoded [OF assms] by blast
  then show ?thesis
    by (simp add: rollback_txn_def split: option.splits)
qed

lemma rollback_each_returns:
  assumes "log_file_m lm = encode_log rs" and "current_offset_m lm = file_size (log_file_m lm)"
    and "\<forall>r \<in> set rs. wf_record r" and "length (encode_log rs) < 2 ^ 64"
  shows "\<exists>r. rollback_each ts lm bm = Some r"
proof (induction ts arbitrary: bm)
  case Nil
  then show ?case by simp
next
  case (Cons t ts)
  obtain r where r: "rollback_txn t lm bm = Some r"
    using rollback_txn_returns [OF assms] by blast
  show ?case
  proof (cases r)
    case (Inl e)
    then show ?thesis using r by simp
  next
    case (Inr s)
    obtain lm' bm' where s: "s = (lm', bm')" by (cases s)
    have "lm' = lm" using r Inr s rollback_txn_frame by blast
    then show ?thesis using r Inr s Cons [of bm'] by simp
  qed
qed

lemma recovery_returns:
  assumes "log_file_m lm = encode_log rs" and "\<forall>r \<in> set rs. wf_record r"
    and "length (encode_log rs) < 2 ^ 64"
  shows "\<exists>r. recovery lm bm = Some r"
proof -
  let ?s = "fold replay rs (recovery_begin lm)"
  obtain lm1 st1 where s: "?s = (lm1, st1)" by (cases ?s)
  have scan: "recovery_scan (recovery_begin lm) = Some (Inr (lm1, st1))"
    using recovery_scan_encoded [OF assms] s by simp
  have f1: "log_file_m lm1 = encode_log rs"
    using fold_replay_frame(1) [of rs "recovery_begin lm"] s assms(1)
    by (simp add: recovery_begin_def)
  have c1: "current_offset_m lm1 = file_size (log_file_m lm1)"
    using fold_replay_frame(2) [of rs "recovery_begin lm"] s f1 assms(1)
    by (simp add: recovery_begin_def)
  note each = rollback_each_returns [OF f1 c1 assms(2,3)]
  let ?st2 = "merge_pending st1"
  show ?thesis
  proof (cases "redo_aborted (aborted_txns ?st2) (updatesSinceLastCheckpoint ?st2) bm")
    case (Inl e)
    then show ?thesis by (simp add: recovery_def scan Let_def)
  next
    case (Inr bm1)
    obtain r where r: "rollback_each (aborted_txns ?st2) lm1 bm1 = Some r"
      using each by blast
    show ?thesis
    proof (cases r)
      case (Inl e)
      then show ?thesis using Inr r by (simp add: recovery_def scan Let_def)
    next
      case inr: (Inr s2)
      obtain lm2 bm2 where s2: "s2 = (lm2, bm2)" by (cases s2)
      have "lm2 = lm1" using r inr s2 rollback_each_frame by blast
      then obtain r' where "rollback_each
                      (filter (\<lambda>t. t \<notin> set (aborted_txns ?st2))
                         (map fst (txn_id_to_first_log_record lm2))) lm2 bm2 = Some r'"
        using each by blast
      then show ?thesis using Inr r inr s2 by (simp add: recovery_def scan Let_def)
    qed
  qed
qed

text \<open>
  Claim C8. Every append adds one to the count of its own kind and leaves the other
  counts as they are. After any list of appends on a log manager that was just reset,
  \<^verbatim>\<open>get_total_log_records\<close> is the number of appends, and \<^verbatim>\<open>recovery\<close> on a log written record by
  record returns, and after it the total is the number of records in the log. The counters are
  \<^verbatim>\<open>uint64_t\<close>, so the total is the number as a 64-bit word; it is the number itself
  when that is below \<open>2 ^ 64\<close>, which the size of the file guarantees after recovery.
\<close>

theorem total_log_records_counts_records:
  "(apply_op op (lm, bm) = Some (Inr (lm1, bm1)) \<longrightarrow>
      log_record_type_to_count lm1 =
        (log_record_type_to_count lm)(kind_of_op op := log_record_type_to_count lm (kind_of_op op) + 1))
   \<and> (run_ops ops (reset f lm0, bm0) = Some (Inr (lm2, bm2)) \<longrightarrow>
        get_total_log_records lm2 = of_nat (length ops)
        \<and> (length ops < 2 ^ 64 \<longrightarrow> unat (get_total_log_records lm2) = length ops))
   \<and> (log_file_m lm3 = encode_log rs \<and> (\<forall>r \<in> set rs. wf_record r) \<and> length (encode_log rs) < 2 ^ 64
        \<longrightarrow>
        (\<exists>r. recovery lm3 bm3 = Some r)
        \<and> (recovery lm3 bm3 = Some (Inr (lm4, bm4)) \<longrightarrow>
             get_total_log_records lm4 = of_nat (length rs)
             \<and> unat (get_total_log_records lm4) = length rs))"
proof (intro conjI impI)
  assume "apply_op op (lm, bm) = Some (Inr (lm1, bm1))"
  then show "log_record_type_to_count lm1 =
        (log_record_type_to_count lm)(kind_of_op op := log_record_type_to_count lm (kind_of_op op) + 1)"
    by (rule apply_op_count)
next
  assume run: "run_ops ops (reset f lm0, bm0) = Some (Inr (lm2, bm2))"
  have "get_total_log_records (reset f lm0) = 0"
    by (simp add: reset_def get_total_log_records_def)
  then show t: "get_total_log_records lm2 = of_nat (length ops)"
    using run_ops_total [OF run] by simp
  show "unat (get_total_log_records lm2) = length ops" if "length ops < 2 ^ 64"
    using t that by (simp add: unat_of_nat64)
next
  assume a: "log_file_m lm3 = encode_log rs \<and> (\<forall>r \<in> set rs. wf_record r) \<and> length (encode_log rs) < 2 ^ 64"
  then show "\<exists>r. recovery lm3 bm3 = Some r"
    using recovery_returns [of lm3 rs bm3] by blast
next
  assume a: "log_file_m lm3 = encode_log rs \<and> (\<forall>r \<in> set rs. wf_record r) \<and> length (encode_log rs) < 2 ^ 64"
    and b: "recovery lm3 bm3 = Some (Inr (lm4, bm4))"
  show t: "get_total_log_records lm4 = of_nat (length rs)"
    using recovery_total [of lm3 rs bm3 lm4 bm4] a b by blast
  have "length rs < 2 ^ 64"
    using a length_le_encode_log [of rs] by linarith
  then show "unat (get_total_log_records lm4) = length rs"
    using t by (simp add: unat_of_nat64)
qed

lemma observed_Inr:
  "map_option (map_sum id g) r = Some (Inr v) \<Longrightarrow> \<exists>x. r = Some (Inr x) \<and> g x = v"
  by (cases r) (auto simp add: map_sum_def split: sum.splits)



theorem total_log_records_counts_records_witness:
  "map_option (map_sum id (\<lambda>s. log_record_type_to_count (fst s) BEGIN_RECORD))
     (apply_op (OpBegin 1) (LogManager_new [], blank_pool 8)) = Some (Inr 1)
   \<and> total_after_ops
       [OpBegin 1, OpUpdate 1 2 2 0 [0, 0] [7, 7], OpCommit 1, OpFuzzyBegin, OpFuzzyEnd,
        OpBegin 4, OpUpdate 4 2 1 3 [0] [9], OpAbort 4, OpCheckpoint] [] (blank_pool 8)
     = Some (Inr 9)
   \<and> total_after_recovery
       (encode_log
          [Begin 1,
           Update \<lparr>ui_txn_id = 1, ui_page_id = 2, ui_length = 2, ui_offset = 0,
                    ui_before_img = [0, 0], ui_after_img = [7, 7]\<rparr>,
           Commit 1, BeginFuzzy, EndFuzzy, Begin 4,
           Update \<lparr>ui_txn_id = 4, ui_page_id = 2, ui_length = 1, ui_offset = 3,
                    ui_before_img = [0], ui_after_img = [9]\<rparr>,
           Abort 4, Checkpoint])
       (blank_pool 8)
     = Some (Inr 9)"
proof -
  let ?ops = "[OpBegin 1, OpUpdate 1 2 2 0 [0, 0] [7, 7], OpCommit 1, OpFuzzyBegin, OpFuzzyEnd,
        OpBegin 4, OpUpdate 4 2 1 3 [0] [9], OpAbort 4, OpCheckpoint]"
  let ?rs = "[Begin 1,
           Update \<lparr>ui_txn_id = 1, ui_page_id = 2, ui_length = 2, ui_offset = 0,
                    ui_before_img = [0, 0], ui_after_img = [7, 7]\<rparr>,
           Commit 1, BeginFuzzy, EndFuzzy, Begin 4,
           Update \<lparr>ui_txn_id = 4, ui_page_id = 2, ui_length = 1, ui_offset = 3,
                    ui_before_img = [0], ui_after_img = [9]\<rparr>,
           Abort 4, Checkpoint]"
  have "map_option (map_sum id (\<lambda>s. True)) (apply_op (OpBegin 1) (LogManager_new [], blank_pool 8)) = Some (Inr True)"
    by code_simp
  from observed_Inr [OF this]
  obtain lm1 bm1 where a: "apply_op (OpBegin 1) (LogManager_new [], blank_pool 8) = Some (Inr (lm1, bm1))"
    by (metis surj_pair)
  have "map_option (map_sum id (\<lambda>s. True)) (run_ops ?ops (reset [] (LogManager_new []), blank_pool 8)) = Some (Inr True)"
    by code_simp
  from observed_Inr [OF this]
  obtain lm2 bm2 where b: "run_ops ?ops (reset [] (LogManager_new []), blank_pool 8) = Some (Inr (lm2, bm2))"
    by (metis surj_pair)
  have "map_option (map_sum id (\<lambda>s. True)) (recovery (reset (encode_log ?rs) (LogManager_new [])) (blank_pool 8)) = Some (Inr True)"
    by code_simp
  from observed_Inr [OF this]
  obtain lm4 bm4 where c: "recovery (reset (encode_log ?rs) (LogManager_new [])) (blank_pool 8) = Some (Inr (lm4, bm4))"
    by (metis surj_pair)
  have c1: "log_file_m (reset (encode_log ?rs) (LogManager_new [])) = encode_log ?rs"
    by (simp add: reset_def)
  have c2: "\<forall>r \<in> set ?rs. wf_record r" by simp
  have c3: "length (encode_log ?rs) < 2 ^ 64" by (simp add: encode_log_def encode_record_def)
  note t = total_log_records_counts_records
    [of "OpBegin 1" "LogManager_new []" "blank_pool 8" lm1 bm1 ?ops "[]" "LogManager_new []"
        "blank_pool 8" lm2 bm2 "reset (encode_log ?rs) (LogManager_new [])" ?rs "blank_pool 8" lm4 bm4]
  have p1: "log_record_type_to_count lm1 BEGIN_RECORD = 1"
    using t [THEN conjunct1, THEN mp, OF a] by (simp add: LogManager_new_def)
  have p2: "get_total_log_records lm2 = 9"
    using t [THEN conjunct2, THEN conjunct1, THEN mp, OF b, THEN conjunct1] by simp
  have p3: "get_total_log_records lm4 = 9"
    using t [THEN conjunct2, THEN conjunct2, THEN mp, OF conjI [OF c1 conjI [OF c2 c3]],
             THEN conjunct2, THEN mp, OF c, THEN conjunct1] by simp
  show ?thesis
    unfolding total_after_ops_def total_after_recovery_def a b c
    by (simp add: p1 p2 p3)
qed

section \<open>The ordinal stored at BEGIN\<close>















section \<open>The map of live transactions after recovery\<close>

text \<open>
  Claim C3 says that after recovery no transaction with an ABORT or COMMIT record has an
  entry in \<^verbatim>\<open>txn_id_to_first_log_record\<close>. The log BEGIN 1, ABORT 1 shows what the code
  does: recovery's scan keeps the entry at the ABORT record, so that \<^verbatim>\<open>rollback_txn\<close>
  finds it, and nothing erases it afterwards; the entry of transaction 1 with ordinal 0
  is still there when recovery returns. \<^verbatim>\<open>log_abort\<close>, which writes the same two records
  in normal operation, erases the entry after its rollback, and a COMMIT record does
  erase the entry during recovery.
\<close>

theorem aborted_txn_keeps_entry_after_recovery:
  "encode_log [Begin 1, Abort 1] = [4, 1, 0, 0, 0, 0, 0, 0, 0, 1, 1, 0, 0, 0, 0, 0, 0, 0]
   \<and> txns_after_recovery [4, 1, 0, 0, 0, 0, 0, 0, 0, 1, 1, 0, 0, 0, 0, 0, 0, 0] (blank_pool 8)
       = Some (Inr [(1, 0)])
   \<and> txns_after_ops [OpBegin 1, OpAbort 1] (blank_pool 8) = Some (Inr [])
   \<and> txns_after_recovery [4, 1, 0, 0, 0, 0, 0, 0, 0, 2, 1, 0, 0, 0, 0, 0, 0, 0] (blank_pool 8)
       = Some (Inr [])"
  by code_simp

end
